theory Spec2Isabelle
  imports Complex_Main "HOL-Library.Sublist"
begin

section \<open>Strings\<close>

text \<open>
  A Python \<open>str\<close> is a sequence of Unicode code points. The summary text may hold the
  bullet glyph U+2022, which is one character of the source's strings, so a string is
  modelled as the list of its code points. ASCII literals of the source are written
  through \<open>ascii\<close>.
\<close>

type_synonym pystr = "nat list"

definition ascii :: "string \<Rightarrow> pystr" where
  "ascii s = map of_char s"

definition star :: nat where
  "star = 42"

definition newline :: nat where
  "newline = 10"

definition bullet :: nat where
  "bullet = 8226"

section \<open>Markup converter: \<open>convert_markdown_to_html\<close>\<close>

subsection \<open>\<open>re.sub(r"\*\*(.*?)\*\*", r"<b>\1</b>", text)\<close>\<close>

text \<open>
  After the opening \<open>**\<close> the lazy group \<open>(.*?)\<close> grows one character at a time: at
  each position the engine first tries the closing \<open>**\<close>; failing that, \<open>.\<close> consumes
  the next character, which it can do for every character but the newline (the pattern
  is compiled without DOTALL). \<open>close_bold s\<close> is the captured group and the text left
  after the closing delimiter, or \<open>None\<close> when the match attempt fails.
\<close>

fun close_bold :: "pystr \<Rightarrow> (pystr \<times> pystr) option" where
  "close_bold [] = None"
| "close_bold (c # cs) =
     (if c = star \<and> take 1 cs = [star] then Some ([], drop 1 cs)
      else if c = newline then None
      else (case close_bold cs of
              None \<Rightarrow> None
            | Some (x, rest) \<Rightarrow> Some (c # x, rest)))"

text \<open>One match attempt of the whole pattern at the start of \<open>s\<close>.\<close>

definition match_bold :: "pystr \<Rightarrow> (pystr \<times> pystr) option" where
  "match_bold s = (if take 2 s = [star, star] then close_bold (drop 2 s) else None)"

lemma close_bold_length: "close_bold s = Some (x, rest) \<Longrightarrow> length rest < length s"
  by (induction s arbitrary: x) (auto split: if_splits option.splits)

lemma match_bold_length: "match_bold s = Some (x, rest) \<Longrightarrow> length rest < length s"
  by (auto simp: match_bold_def split: if_splits dest!: close_bold_length)

text \<open>
  \<open>re.sub\<close> scans from the left: where the pattern matches, the match is replaced by
  the expanded template and the scan resumes after the match; where it does not, the
  character is copied and the scan moves one character on.
\<close>

function sub_bold :: "pystr \<Rightarrow> pystr" where
  "sub_bold [] = []"
| "sub_bold (c # cs) =
     (case match_bold (c # cs) of
        Some (x, rest) \<Rightarrow> ascii ''<b>'' @ x @ ascii ''</b>'' @ sub_bold rest
      | None \<Rightarrow> c # sub_bold cs)"
  by pat_completeness auto
termination
  by (relation "measure length") (auto dest: match_bold_length)

subsection \<open>\<open>re.sub(r"\*(.*?)\*", r"<i>\1</i>", text)\<close>\<close>

fun close_italic :: "pystr \<Rightarrow> (pystr \<times> pystr) option" where
  "close_italic [] = None"
| "close_italic (c # cs) =
     (if c = star then Some ([], cs)
      else if c = newline then None
      else (case close_italic cs of
              None \<Rightarrow> None
            | Some (x, rest) \<Rightarrow> Some (c # x, rest)))"

definition match_italic :: "pystr \<Rightarrow> (pystr \<times> pystr) option" where
  "match_italic s = (if take 1 s = [star] then close_italic (drop 1 s) else None)"

lemma close_italic_length: "close_italic s = Some (x, rest) \<Longrightarrow> length rest < length s"
  by (induction s arbitrary: x) (auto split: if_splits option.splits)

lemma match_italic_length: "match_italic s = Some (x, rest) \<Longrightarrow> length rest < length s"
  by (auto simp: match_italic_def split: if_splits dest!: close_italic_length)

function sub_italic :: "pystr \<Rightarrow> pystr" where
  "sub_italic [] = []"
| "sub_italic (c # cs) =
     (case match_italic (c # cs) of
        Some (x, rest) \<Rightarrow> ascii ''<i>'' @ x @ ascii ''</i>'' @ sub_italic rest
      | None \<Rightarrow> c # sub_italic cs)"
  by pat_completeness auto
termination
  by (relation "measure length") (auto dest: match_italic_length)

subsection \<open>\<open>str.replace\<close> of a single character\<close>

definition replace_char :: "nat \<Rightarrow> pystr \<Rightarrow> pystr \<Rightarrow> pystr" where
  "replace_char old new s = concat (map (\<lambda>c. if c = old then new else [c]) s)"

subsection \<open>The converter\<close>

definition convert_markdown_to_html :: "pystr \<Rightarrow> pystr" where
  "convert_markdown_to_html text =
     (let text = sub_bold text;
          text = sub_italic text;
          text = replace_char newline (ascii ''<br/>'') text;
          text = replace_char bullet (ascii ''&bull;'') text
      in text)"

subsection \<open>The substitution as a loop\<close>

text \<open>
  The scan of \<open>re.sub\<close> written as the loop it is: \<open>out\<close> is the output so far, \<open>s\<close>
  the text not yet scanned, \<open>match\<close> one match attempt at the start of \<open>s\<close> and
  \<open>repl\<close> the expansion of the template on the captured group. Nothing is assumed
  about its termination: not returning is the value \<open>None\<close>.
\<close>

partial_function (option) re_sub_scan ::
  "(pystr \<Rightarrow> (pystr \<times> pystr) option) \<Rightarrow> (pystr \<Rightarrow> pystr) \<Rightarrow> pystr \<Rightarrow> pystr \<Rightarrow> pystr option" where
  "re_sub_scan match repl out s =
     (case s of
        [] \<Rightarrow> Some out
      | c # cs \<Rightarrow>
          (case match s of
             Some (x, rest) \<Rightarrow> re_sub_scan match repl (out @ repl x) rest
           | None \<Rightarrow> re_sub_scan match repl (out @ [c]) cs))"

text \<open>The converter on these loops.\<close>

definition convert_scan :: "pystr \<Rightarrow> pystr option" where
  "convert_scan text =
     (case re_sub_scan match_bold (\<lambda>x. ascii ''<b>'' @ x @ ascii ''</b>'') [] text of
        None \<Rightarrow> None
      | Some text \<Rightarrow>
          (case re_sub_scan match_italic (\<lambda>x. ascii ''<i>'' @ x @ ascii ''</i>'') [] text of
             None \<Rightarrow> None
           | Some text \<Rightarrow>
               Some (replace_char bullet (ascii ''&bull;'')
                       (replace_char newline (ascii ''<br/>'') text))))"

text \<open>
  The characters that no rule of the converter looks for: everything but the asterisk,
  the newline and the bullet glyph.
\<close>

definition untouched :: "nat \<Rightarrow> bool" where
  "untouched c = (c \<noteq> star \<and> c \<noteq> newline \<and> c \<noteq> bullet)"

text \<open>
  What may stand in the output for one character of the input: for an asterisk nothing,
  the asterisk itself or one of the four emphasis tags; for a newline the line-break
  tag; for a bullet glyph its entity; for every other character that character alone.
\<close>

definition rewrite_of :: "nat \<Rightarrow> pystr \<Rightarrow> bool" where
  "rewrite_of c r =
     (if c = star then
        r \<in> set [[], [star], ascii ''<b>'', ascii ''</b>'', ascii ''<i>'', ascii ''</i>'']
      else if c = newline then r = ascii ''<br/>''
      else if c = bullet then r = ascii ''&bull;''
      else r = [c])"

text \<open>
  \<open>expands R s out\<close>: the text \<open>out\<close> is \<open>s\<close> with each character replaced, in place,
  by a text that \<open>R\<close> allows for it. The relations below are what each rule, and the
  rules so far, allow.
\<close>

definition expands :: "(nat \<Rightarrow> pystr \<Rightarrow> bool) \<Rightarrow> pystr \<Rightarrow> pystr \<Rightarrow> bool" where
  "expands R s out \<longleftrightarrow> (\<exists>rs. list_all2 R s rs \<and> out = concat rs)"

definition after_bold :: "nat \<Rightarrow> pystr \<Rightarrow> bool" where
  "after_bold c r =
     (if c = star then r \<in> set [[], [star], ascii ''<b>'', ascii ''</b>''] else r = [c])"

definition italic_step :: "nat \<Rightarrow> pystr \<Rightarrow> bool" where
  "italic_step c r =
     (if c = star then r \<in> set [[star], ascii ''<i>'', ascii ''</i>''] else r = [c])"

definition after_italic :: "nat \<Rightarrow> pystr \<Rightarrow> bool" where
  "after_italic c r =
     (if c = star then
        r \<in> set [[], [star], ascii ''<b>'', ascii ''</b>'', ascii ''<i>'', ascii ''</i>'']
      else r = [c])"

definition replace_step :: "nat \<Rightarrow> pystr \<Rightarrow> nat \<Rightarrow> pystr \<Rightarrow> bool" where
  "replace_step old new c r \<longleftrightarrow> r = (if c = old then new else [c])"

definition after_newline :: "nat \<Rightarrow> pystr \<Rightarrow> bool" where
  "after_newline c r =
     (if c = star then
        r \<in> set [[], [star], ascii ''<b>'', ascii ''</b>'', ascii ''<i>'', ascii ''</i>'']
      else if c = newline then r = ascii ''<br/>''
      else r = [c])"

section \<open>The rules of the specification\<close>

text \<open>
  The four rules as the specification words them, for comparison with the code. A text
  under conversion is a list of pieces: a character of the input, or a tag that a rule
  has inserted. A rule looks at characters only, so an inserted tag is never matched
  again by a later rule; it can lie inside a later span and is then copied with it.
\<close>

datatype piece = Chr nat | Ins pystr

fun flat :: "piece \<Rightarrow> pystr" where
  "flat (Chr c) = [c]"
| "flat (Ins s) = s"

definition flatten :: "piece list \<Rightarrow> pystr" where
  "flatten ps = concat (map flat ps)"

text \<open>
  The end of a span: the shortest run of pieces that is followed by the delimiter \<open>d\<close>.
  With \<open>multiline\<close> the run may hold any piece, as the specification says of \<open>X\<close>;
  without it the run may not hold a newline.
\<close>

fun spec_close :: "bool \<Rightarrow> piece list \<Rightarrow> piece list \<Rightarrow> (piece list \<times> piece list) option" where
  "spec_close multiline d [] = None"
| "spec_close multiline d (p # ps) =
     (if prefix d (p # ps) then Some ([], drop (length d) (p # ps))
      else if p = Chr newline \<and> \<not> multiline then None
      else (case spec_close multiline d ps of
              None \<Rightarrow> None
            | Some (x, rest) \<Rightarrow> Some (p # x, rest)))"

text \<open>A span \<open>d X d\<close> at the start of the text.\<close>

definition spec_match :: "bool \<Rightarrow> piece list \<Rightarrow> piece list \<Rightarrow> (piece list \<times> piece list) option" where
  "spec_match multiline d ps =
     (if d \<noteq> [] \<and> prefix d ps then spec_close multiline d (drop (length d) ps) else None)"

lemma spec_close_decomp: "spec_close multiline d ps = Some (x, rest) \<Longrightarrow> ps = x @ d @ rest"
proof (induction ps arbitrary: x)
  case Nil
  then show ?case by simp
next
  case (Cons p ps)
  show ?case
  proof (cases "prefix d (p # ps)")
    case True
    with Cons.prems have "x = []" and "rest = drop (length d) (p # ps)"
      by simp_all
    moreover from True have "p # ps = d @ drop (length d) (p # ps)"
      by (metis append_eq_conv_conj prefix_def)
    ultimately show ?thesis by simp
  next
    case False
    with Cons.prems obtain x' where r: "spec_close multiline d ps = Some (x', rest)"
      and x: "x = p # x'"
      by (auto split: if_splits option.splits)
    from Cons.IH [OF r] x show ?thesis by simp
  qed
qed

lemma spec_match_decomp:
  assumes "spec_match multiline d ps = Some (x, rest)"
  shows "ps = d @ x @ d @ rest \<and> d \<noteq> []"
proof -
  from assms have d: "d \<noteq> []" and p: "prefix d ps"
    and c: "spec_close multiline d (drop (length d) ps) = Some (x, rest)"
    by (auto simp: spec_match_def split: if_splits)
  from p have "ps = d @ drop (length d) ps"
    by (metis append_eq_conv_conj prefix_def)
  with spec_close_decomp [OF c] d show ?thesis by simp
qed

lemma spec_match_length:
  assumes "spec_match multiline d ps = Some (x, rest)"
  shows "length rest < length ps"
proof -
  from spec_match_decomp [OF assms] have "ps = d @ x @ d @ rest" and "d \<noteq> []"
    by simp_all
  then have "length ps = length d + length x + length d + length rest" and "0 < length d"
    by (metis length_append add.assoc, simp)
  then show ?thesis by simp
qed

text \<open>
  Rules 1 and 2: every span, leftmost first, is replaced by its content between an
  opening and a closing tag.
\<close>

function spec_emphasis :: "bool \<Rightarrow> piece list \<Rightarrow> pystr \<Rightarrow> pystr \<Rightarrow> piece list \<Rightarrow> piece list" where
  "spec_emphasis multiline d opn cls [] = []"
| "spec_emphasis multiline d opn cls (p # ps) =
     (case spec_match multiline d (p # ps) of
        Some (x, rest) \<Rightarrow> Ins opn # x @ Ins cls # spec_emphasis multiline d opn cls rest
      | None \<Rightarrow> p # spec_emphasis multiline d opn cls ps)"
  by pat_completeness auto
termination
  by (relation "measure (\<lambda>(multiline, d, opn, cls, ps). length ps)")
    (auto dest: spec_match_length)

text \<open>Rules 3 and 4: every occurrence of a character is replaced by a tag.\<close>

definition spec_replace :: "nat \<Rightarrow> pystr \<Rightarrow> piece list \<Rightarrow> piece list" where
  "spec_replace old new ps = map (\<lambda>p. if p = Chr old then Ins new else p) ps"

text \<open>The four rules in their order.\<close>

definition spec_convert :: "bool \<Rightarrow> pystr \<Rightarrow> pystr" where
  "spec_convert multiline text =
     flatten
       (spec_replace bullet (ascii ''&bull;'')
         (spec_replace newline (ascii ''<br/>'')
           (spec_emphasis multiline [Chr star] (ascii ''<i>'') (ascii ''</i>'')
             (spec_emphasis multiline [Chr star, Chr star] (ascii ''<b>'') (ascii ''</b>'')
               (map Chr text)))))"

text \<open>An inserted tag is inert when no rule can match a character of it.\<close>

fun inert :: "piece \<Rightarrow> bool" where
  "inert (Chr c) = True"
| "inert (Ins s) = (s \<noteq> [] \<and> star \<notin> set s \<and> newline \<notin> set s \<and> bullet \<notin> set s)"

section \<open>Document renderer: \<open>save_summary_as_pdf\<close>\<close>

subsection \<open>Numbers and dates as text\<close>

text \<open>\<open>str(n)\<close> of a natural number: its decimal digits.\<close>

fun str_nat :: "nat \<Rightarrow> pystr" where
  "str_nat n = (if n < 10 then [48 + n] else str_nat (n div 10) @ [48 + n mod 10])"

declare str_nat.simps [simp del]

definition zfill :: "nat \<Rightarrow> pystr \<Rightarrow> pystr" where
  "zfill width s = replicate (width - length s) 48 @ s"

record datetime =
  year :: nat
  month :: nat
  day :: nat
  hour :: nat
  minute :: nat
  second :: nat
  microsecond :: nat

definition month_names :: "pystr list" where
  "month_names =
     [ascii ''January'', ascii ''February'', ascii ''March'', ascii ''April'', ascii ''May'',
      ascii ''June'', ascii ''July'', ascii ''August'', ascii ''September'', ascii ''October'',
      ascii ''November'', ascii ''December'']"

text \<open>
  The directives of \<open>strftime\<close> that the source uses, in the C locale. A year is written
  with four digits, which is what every platform does for the years a clock shows. A
  \<open>datetime\<close> has a month from 1 to 12; for any other number the month name is left
  empty. A directive the source does not use is copied.
\<close>

definition directive :: "char \<Rightarrow> datetime \<Rightarrow> pystr" where
  "directive c d =
     (if c = CHR ''Y'' then zfill 4 (str_nat (year d))
      else if c = CHR ''m'' then zfill 2 (str_nat (month d))
      else if c = CHR ''d'' then zfill 2 (str_nat (day d))
      else if c = CHR ''H'' then zfill 2 (str_nat (hour d))
      else if c = CHR ''M'' then zfill 2 (str_nat (minute d))
      else if c = CHR ''S'' then zfill 2 (str_nat (second d))
      else if c = CHR ''I'' then
        zfill 2 (str_nat (if hour d mod 12 = 0 then 12 else hour d mod 12))
      else if c = CHR ''p'' then (if hour d < 12 then ascii ''AM'' else ascii ''PM'')
      else if c = CHR ''B'' then
        (if 1 \<le> month d \<and> month d \<le> 12 then month_names ! (month d - 1) else [])
      else [of_char CHR ''%'', of_char c])"

fun strftime :: "string \<Rightarrow> datetime \<Rightarrow> pystr" where
  "strftime [] d = []"
| "strftime [c] d = [of_char c]"
| "strftime (c # k # fmt) d =
     (if c = CHR ''%'' then directive k d @ strftime fmt d
      else of_char c # strftime (k # fmt) d)"

subsection \<open>\<open>str.split()\<close>\<close>

text \<open>The characters for which \<open>str.isspace\<close> holds.\<close>

definition isspace :: "nat \<Rightarrow> bool" where
  "isspace c \<longleftrightarrow>
     (9 \<le> c \<and> c \<le> 13) \<or> (28 \<le> c \<and> c \<le> 32) \<or> c = 133 \<or> c = 160 \<or> c = 5760
     \<or> (8192 \<le> c \<and> c \<le> 8202) \<or> c = 8232 \<or> c = 8233 \<or> c = 8239 \<or> c = 8287
     \<or> c = 12288"

text \<open>
  Splitting at runs of whitespace: \<open>word\<close> holds the characters of the word being read;
  a whitespace character ends it, and no empty word is produced.
\<close>

fun split_from :: "pystr \<Rightarrow> pystr \<Rightarrow> pystr list" where
  "split_from word [] = (if word = [] then [] else [word])"
| "split_from word (c # cs) =
     (if isspace c then (if word = [] then split_from [] cs else word # split_from [] cs)
      else split_from (word @ [c]) cs)"

definition str_split :: "pystr \<Rightarrow> pystr list" where
  "str_split s = split_from [] s"

text \<open>
  The whitespace-delimited tokens of a text, counted by where they start: at a character
  that is not whitespace and is the first of the text or follows a whitespace character.
\<close>

definition token_starts :: "pystr \<Rightarrow> nat list" where
  "token_starts s =
     filter (\<lambda>i. \<not> isspace (s ! i) \<and> (i = 0 \<or> isspace (s ! (i - 1)))) [0..<length s]"

fun starts_from :: "bool \<Rightarrow> pystr \<Rightarrow> nat" where
  "starts_from after_space [] = 0"
| "starts_from after_space (c # cs) =
     (if \<not> isspace c \<and> after_space then 1 else 0) + starts_from (isspace c) cs"

subsection \<open>The document as it is handed to the library\<close>

text \<open>
  The library that composes the file is not part of the repository. The rendered
  document is modelled by what the function hands to it: the document template and the
  list of content blocks. Lengths are exact rationals, in points; the source computes
  them in floating point.
\<close>

datatype color = HexColor string | white

text \<open>
  The fields of a paragraph style that the source sets; \<open>alignment\<close> and \<open>spaceAfter\<close>
  are 0 in the library where the source does not set them.
\<close>

record ParagraphStyle =
  name :: string
  fontSize :: nat
  leading :: nat
  alignment :: nat
  textColor :: color
  spaceAfter :: nat

datatype arg = Color color | Name string | Number rat

type_synonym table_cmd = "string \<times> (int \<times> int) \<times> (int \<times> int) \<times> arg list"

datatype flowable =
    Paragraph pystr ParagraphStyle
  | Spacer rat rat
  | Table "cell list list" "rat list" "table_cmd list"
and cell = Text pystr | Flow flowable

type_synonym pagesize = "rat \<times> rat"

record SimpleDocTemplate =
  filename :: pystr
  pagesize :: pagesize
  leftMargin :: nat
  rightMargin :: nat
  topMargin :: nat
  bottomMargin :: nat

record pdf =
  template :: SimpleDocTemplate
  story :: "flowable list"

definition inch :: rat where
  "inch = 72"

definition title_style :: ParagraphStyle where
  "title_style = \<lparr>name = ''Title'', fontSize = 22, leading = 26, alignment = 1,
     textColor = HexColor ''#1E3A8A'', spaceAfter = 12\<rparr>"

definition subtitle_style :: ParagraphStyle where
  "subtitle_style = \<lparr>name = ''Subtitle'', fontSize = 13, leading = 18, alignment = 1,
     textColor = HexColor ''#334155'', spaceAfter = 18\<rparr>"

definition body_style :: ParagraphStyle where
  "body_style = \<lparr>name = ''Body'', fontSize = 12, leading = 18, alignment = 0,
     textColor = HexColor ''#0F172A'', spaceAfter = 10\<rparr>"

definition footer_style :: ParagraphStyle where
  "footer_style = \<lparr>name = ''Footer'', fontSize = 9, leading = 12, alignment = 1,
     textColor = HexColor ''#6B7280'', spaceAfter = 0\<rparr>"

definition header_table :: flowable where
  "header_table =
     Table [[Text ([129504] @ ascii '' AI Text Summarizer''),
             Text (ascii ''Gemini 2.5 Pro | AI Generated Summary'')]]
       [7 / 2 * inch, 3 * inch]
       [(''BACKGROUND'', (0, 0), (-1, -1), [Color (HexColor ''#2563EB'')]),
        (''TEXTCOLOR'', (0, 0), (-1, -1), [Color white]),
        (''ALIGN'', (0, 0), (0, 0), [Name ''LEFT'']),
        (''ALIGN'', (1, 0), (1, 0), [Name ''RIGHT'']),
        (''FONTNAME'', (0, 0), (-1, -1), [Name ''Helvetica-Bold'']),
        (''FONTSIZE'', (0, 0), (-1, -1), [Number 13]),
        (''TOPPADDING'', (0, 0), (-1, -1), [Number 8]),
        (''BOTTOMPADDING'', (0, 0), (-1, -1), [Number 8])]"

text \<open>The content card: one cell that holds the converted summary as a paragraph.\<close>

definition card_table :: "pystr \<Rightarrow> flowable" where
  "card_table formatted =
     Table [[Flow (Paragraph formatted body_style)]]
       [6 * inch]
       [(''BACKGROUND'', (0, 0), (-1, -1), [Color (HexColor ''#EFF6FF'')]),
        (''BOX'', (0, 0), (-1, -1), [Number (3 / 4), Color (HexColor ''#93C5FD'')]),
        (''INNERPADDING'', (0, 0), (-1, -1), [Number 14])]"

definition title_text :: pystr where
  "title_text = [10024] @ ascii '' Executive Summary''"

definition subtitle_text :: pystr where
  "subtitle_text =
     ascii ''Clean '' @ [bullet] @ ascii '' Concise '' @ [bullet] @ ascii '' Insightful''"

text \<open>
  The footer: the time of generation, the number of words of the summary text as it was
  passed in, and the attribution line.
\<close>

definition footer_text :: "datetime \<Rightarrow> pystr \<Rightarrow> pystr" where
  "footer_text now summary_text =
     ascii ''<b>Generated on:</b> '' @ strftime ''%B %d, %Y - %I:%M %p'' now @ ascii ''  |  ''
     @ ascii ''<b>Word Count:</b> '' @ str_nat (length (str_split summary_text)) @ ascii ''<br/>''
     @ ascii ''<font color='' @ [39] @ ascii ''#9CA3AF'' @ [39] @ ascii ''>Made with ''
     @ [10084, 65039] @ ascii '' using Streamlit & Gemini</font>''"

definition footer_tail :: pystr where
  "footer_tail =
     ascii ''<br/><font color='' @ [39] @ ascii ''#9CA3AF'' @ [39] @ ascii ''>Made with ''
     @ [10084, 65039] @ ascii '' using Streamlit & Gemini</font>''"

subsection \<open>What the function depends on and what it changes\<close>

text \<open>
  The environment of a call: whether the import of the library at module load succeeded
  and the page size it then exports, the readings of the wall clock in the order in
  which they are taken, and the behaviour of the library, which raises on a paragraph
  text it cannot parse and on a document it cannot build. The world is what a call
  changes: the number of clock readings taken so far, and the files on disk. The library
  writes the file when the build has completed.
\<close>

record env =
  reportlab_installed :: bool
  reportlab_A4 :: pagesize
  clock :: "nat \<Rightarrow> datetime"
  parses :: "pystr \<Rightarrow> bool"
  builds :: "pdf \<Rightarrow> bool"

record world =
  clock_reads :: nat
  files :: "pystr \<rightharpoonup> pdf"

text \<open>The module-level \<open>A4\<close>: the library's page size, or \<open>None\<close> when the import failed.\<close>

definition A4 :: "env \<Rightarrow> pagesize option" where
  "A4 e = (if reportlab_installed e then Some (reportlab_A4 e) else None)"

datatype exn = RuntimeError pystr | LibraryError

text \<open>The specification's name for the failure that the function raises itself.\<close>

definition RenderingUnavailable :: exn where
  "RenderingUnavailable =
     RuntimeError (ascii ''ReportLab is not installed. Install dependencies to export PDF.'')"

definition datetime_now :: "env \<Rightarrow> world \<Rightarrow> datetime \<times> world" where
  "datetime_now e w = (clock e (clock_reads w), w\<lparr>clock_reads := clock_reads w + 1\<rparr>)"

subsection \<open>The renderer\<close>

definition save_summary_as_pdf :: "env \<Rightarrow> pystr \<Rightarrow> world \<Rightarrow> (exn + pystr) \<times> world" where
  "save_summary_as_pdf e summary_text w =
     (case A4 e of
        None \<Rightarrow>
          (Inl (RuntimeError
                  (ascii ''ReportLab is not installed. Install dependencies to export PDF.'')), w)
      | Some a4 \<Rightarrow>
          (let (now, w) = datetime_now e w;
               filename = ascii ''AI_Summary_'' @ strftime ''%Y%m%d_%H%M%S'' now @ ascii ''.pdf'';
               doc = \<lparr>filename = filename, pagesize = a4, leftMargin = 60, rightMargin = 60,
                        topMargin = 80, bottomMargin = 60\<rparr>;
               formatted = convert_markdown_to_html summary_text
           in if \<not> parses e formatted then (Inl LibraryError, w)
              else if \<not> parses e title_text then (Inl LibraryError, w)
              else if \<not> parses e subtitle_text then (Inl LibraryError, w)
              else
                (let (now, w) = datetime_now e w;
                     footer = footer_text now summary_text
                 in if \<not> parses e footer then (Inl LibraryError, w)
                    else
                      (let content =
                             [header_table,
                              Spacer 1 (35 / 100 * inch),
                              Paragraph title_text title_style,
                              Paragraph subtitle_text subtitle_style,
                              card_table formatted,
                              Spacer 1 (4 / 10 * inch),
                              Paragraph footer footer_style];
                           file = \<lparr>template = doc, story = content\<rparr>
                       in if builds e file
                          then (Inr filename, w\<lparr>files := (files w)(filename \<mapsto> file)\<rparr>)
                          else (Inl LibraryError, w)))))"

subsection \<open>Example inputs\<close>

text \<open>
  An environment with the library installed and accepting every document, and a clock
  whose first reading is 10:00:59 and whose later readings are 10:01:00.
\<close>

definition example_env :: env where
  "example_env =
     \<lparr>reportlab_installed = True, reportlab_A4 = (595, 842),
      clock = (\<lambda>n. if n = 0
                 then \<lparr>year = 2024, month = 1, day = 5, hour = 10, minute = 0, second = 59,
                        microsecond = 999990\<rparr>
                 else \<lparr>year = 2024, month = 1, day = 5, hour = 10, minute = 1, second = 0,
                        microsecond = 12\<rparr>),
      parses = (\<lambda>_. True), builds = (\<lambda>_. True)\<rparr>"

definition example_world :: world where
  "example_world = \<lparr>clock_reads = 0, files = Map.empty\<rparr>"

definition hello_text :: pystr where
  "hello_text = ascii ''Hello   world'' @ [newline] @ ascii ''foo''"

definition key_point_text :: pystr where
  "key_point_text =
     ascii ''**Key Point**: growth *accelerated* in Q2.'' @ [newline] @ [bullet]
     @ ascii '' Revenue up''"




section \<open>Properties of the converter\<close>

subsection \<open>Text without markers\<close>

lemma match_bold_no_star: "c \<noteq> star \<Longrightarrow> match_bold (c # cs) = None"
  by (simp add: match_bold_def)

lemma match_italic_no_star: "c \<noteq> star \<Longrightarrow> match_italic (c # cs) = None"
  by (simp add: match_italic_def)

lemma sub_bold_no_star: "star \<notin> set s \<Longrightarrow> sub_bold s = s"
  by (induction s) (simp_all add: match_bold_no_star)

lemma sub_italic_no_star: "star \<notin> set s \<Longrightarrow> sub_italic s = s"
  by (induction s) (simp_all add: match_italic_no_star)

lemma sub_bold_skip: "star \<notin> set s \<Longrightarrow> sub_bold (s @ r) = s @ sub_bold r"
  by (induction s) (simp_all add: match_bold_no_star)

lemma sub_italic_skip: "star \<notin> set s \<Longrightarrow> sub_italic (s @ r) = s @ sub_italic r"
  by (induction s) (simp_all add: match_italic_no_star)

lemma replace_char_absent: "old \<notin> set s \<Longrightarrow> replace_char old new s = s"
  by (induction s) (auto simp: replace_char_def)

text \<open>
  C8. A text with no asterisk, no bullet glyph and no newline character is returned
  unchanged by the converter.
\<close>

theorem convert_plain_text:
  assumes "star \<notin> set text" and "bullet \<notin> set text" and "newline \<notin> set text"
  shows "convert_markdown_to_html text = text"
  using assms
  by (simp add: convert_markdown_to_html_def sub_bold_no_star sub_italic_no_star
      replace_char_absent)

theorem convert_plain_text_witness:
  "star \<notin> set (ascii ''a < b & c'') \<and> bullet \<notin> set (ascii ''a < b & c'')
   \<and> newline \<notin> set (ascii ''a < b & c'')
   \<and> convert_markdown_to_html (ascii ''a < b & c'') = ascii ''a < b & c''"
proof -
  have s: "star \<notin> set (ascii ''a < b & c'')"
    by (simp add: ascii_def star_def)
  have b: "bullet \<notin> set (ascii ''a < b & c'')"
    by (simp add: ascii_def bullet_def)
  have n: "newline \<notin> set (ascii ''a < b & c'')"
    by (simp add: ascii_def newline_def)
  from convert_plain_text [OF s b n] s b n show ?thesis
    by simp
qed

subsection \<open>What a match consumes\<close>

lemma close_bold_decomp:
  "close_bold s = Some (x, rest) \<Longrightarrow> s = x @ [star, star] @ rest \<and> newline \<notin> set x"
proof (induction s arbitrary: x)
  case Nil
  then show ?case by simp
next
  case (Cons c cs)
  show ?case
  proof (cases "c = star \<and> take 1 cs = [star]")
    case True
    then obtain cs' where "cs = star # cs'"
      by (cases cs) auto
    with True Cons.prems show ?thesis by auto
  next
    case False
    with Cons.prems obtain x' where c: "c \<noteq> newline" and r: "close_bold cs = Some (x', rest)"
      and x: "x = c # x'"
      by (auto split: if_splits option.splits)
    from Cons.IH [OF r] c x show ?thesis by simp
  qed
qed

lemma match_bold_decomp:
  "match_bold s = Some (x, rest) \<Longrightarrow>
     s = [star, star] @ x @ [star, star] @ rest \<and> newline \<notin> set x"
proof -
  assume m: "match_bold s = Some (x, rest)"
  then have t: "take 2 s = [star, star]" and c: "close_bold (drop 2 s) = Some (x, rest)"
    by (auto simp: match_bold_def split: if_splits)
  from t have "s = [star, star] @ drop 2 s"
    by (metis append_take_drop_id)
  with close_bold_decomp [OF c] show ?thesis by simp
qed

lemma close_italic_decomp:
  "close_italic s = Some (x, rest) \<Longrightarrow>
     s = x @ [star] @ rest \<and> newline \<notin> set x \<and> star \<notin> set x"
proof (induction s arbitrary: x)
  case Nil
  then show ?case by simp
next
  case (Cons c cs)
  show ?case
  proof (cases "c = star")
    case True
    with Cons.prems show ?thesis by simp
  next
    case False
    with Cons.prems obtain x' where c: "c \<noteq> newline"
      and r: "close_italic cs = Some (x', rest)" and x: "x = c # x'"
      by (auto split: if_splits option.splits)
    from Cons.IH [OF r] c x False show ?thesis by simp
  qed
qed

lemma match_italic_decomp:
  "match_italic s = Some (x, rest) \<Longrightarrow>
     s = [star] @ x @ [star] @ rest \<and> newline \<notin> set x \<and> star \<notin> set x"
proof -
  assume m: "match_italic s = Some (x, rest)"
  then have t: "take 1 s = [star]" and c: "close_italic (drop 1 s) = Some (x, rest)"
    by (auto simp: match_italic_def split: if_splits)
  from t have "s = [star] @ drop 1 s"
    by (metis append_take_drop_id)
  with close_italic_decomp [OF c] show ?thesis by simp
qed

lemma sub_bold_keeps: "\<not> P star \<Longrightarrow> subseq (filter P s) (sub_bold s)"
proof (induction s rule: sub_bold.induct)
  case 1
  then show ?case by simp
next
  case (2 c cs)
  show ?case
  proof (cases "match_bold (c # cs)")
    case None
    with 2 show ?thesis by (cases "P c") auto
  next
    case (Some p)
    obtain x rest where p: "p = (x, rest)" by (cases p)
    from match_bold_decomp [OF Some [unfolded p]]
    have d: "c # cs = [star, star] @ x @ [star, star] @ rest" by simp
    have ih: "subseq (filter P rest) (sub_bold rest)"
      using "2.IH"(2) [OF Some p [symmetric]] "2.prems" .
    have "subseq (filter P rest) (ascii ''</b>'' @ sub_bold rest)"
      using ih by (rule list_emb_append2)
    with subseq_filter_left
    have "subseq (filter P x @ filter P rest) (x @ ascii ''</b>'' @ sub_bold rest)"
      by (rule list_emb_append_mono)
    then have "subseq (filter P x @ filter P rest)
        (ascii ''<b>'' @ x @ ascii ''</b>'' @ sub_bold rest)"
      by (rule list_emb_append2)
    with d Some p "2.prems" show ?thesis by simp
  qed
qed

lemma sub_italic_keeps: "\<not> P star \<Longrightarrow> subseq (filter P s) (sub_italic s)"
proof (induction s rule: sub_italic.induct)
  case 1
  then show ?case by simp
next
  case (2 c cs)
  show ?case
  proof (cases "match_italic (c # cs)")
    case None
    with 2 show ?thesis by (cases "P c") auto
  next
    case (Some p)
    obtain x rest where p: "p = (x, rest)" by (cases p)
    from match_italic_decomp [OF Some [unfolded p]]
    have d: "c # cs = [star] @ x @ [star] @ rest" by simp
    have ih: "subseq (filter P rest) (sub_italic rest)"
      using "2.IH"(2) [OF Some p [symmetric]] "2.prems" .
    have "subseq (filter P rest) (ascii ''</i>'' @ sub_italic rest)"
      using ih by (rule list_emb_append2)
    with subseq_filter_left
    have "subseq (filter P x @ filter P rest) (x @ ascii ''</i>'' @ sub_italic rest)"
      by (rule list_emb_append_mono)
    then have "subseq (filter P x @ filter P rest)
        (ascii ''<i>'' @ x @ ascii ''</i>'' @ sub_italic rest)"
      by (rule list_emb_append2)
    with d Some p "2.prems" show ?thesis by simp
  qed
qed

lemma replace_char_keeps: "\<not> P old \<Longrightarrow> subseq (filter P s) (replace_char old new s)"
proof (induction s)
  case Nil
  then show ?case by (simp add: replace_char_def)
next
  case (Cons c cs)
  then have ih: "subseq (filter P cs) (replace_char old new cs)" by simp
  show ?case
  proof (cases "c = old")
    case True
    have "subseq (filter P cs) (new @ replace_char old new cs)"
      using ih by (rule list_emb_append2)
    with True Cons.prems show ?thesis
      by (simp add: replace_char_def)
  next
    case False
    with ih show ?thesis by (auto simp: replace_char_def)
  qed
qed


lemma stage_keeps:
  assumes "subseq (filter P s) u" and "subseq (filter P u) v"
  shows "subseq (filter P s) v"
proof -
  from assms(1) have "subseq (filter P (filter P s)) (filter P u)"
    by (rule subseq_filter)
  then have "subseq (filter P s) (filter P u)" by simp
  from this assms(2) show ?thesis by (rule subseq_order.trans)
qed

subsection \<open>Characters the rules do not look for\<close>

text \<open>
  The characters that no rule looks for occur in the output in their original order, as
  a subsequence of it.
\<close>

lemma convert_subseq_untouched:
  "subseq (filter untouched text) (convert_markdown_to_html text)"
proof -
  have s: "\<not> untouched star" and n: "\<not> untouched newline" and b: "\<not> untouched bullet"
    by (simp_all add: untouched_def)
  let ?t1 = "sub_bold text"
  let ?t2 = "sub_italic ?t1"
  let ?t3 = "replace_char newline (ascii ''<br/>'') ?t2"
  let ?t4 = "replace_char bullet (ascii ''&bull;'') ?t3"
  have 1: "subseq (filter untouched text) ?t1"
    by (rule sub_bold_keeps [of untouched, OF s])
  have 2: "subseq (filter untouched text) ?t2"
    by (rule stage_keeps [OF 1 sub_italic_keeps [of untouched, OF s]])
  have 3: "subseq (filter untouched text) ?t3"
    by (rule stage_keeps [OF 2 replace_char_keeps [of untouched, OF n]])
  have 4: "subseq (filter untouched text) ?t4"
    by (rule stage_keeps [OF 3 replace_char_keeps [of untouched, OF b]])
  then show ?thesis
    by (simp add: convert_markdown_to_html_def)
qed

subsection \<open>A second pass\<close>

lemma tag_chars:
  "star \<notin> set (ascii ''<b>'')" "star \<notin> set (ascii ''</b>'')"
  "star \<notin> set (ascii ''<i>'')" "star \<notin> set (ascii ''</i>'')"
  "star \<notin> set (ascii ''<br/>'')" "star \<notin> set (ascii ''&bull;'')"
  "newline \<notin> set (ascii ''<b>'')" "newline \<notin> set (ascii ''</b>'')"
  "newline \<notin> set (ascii ''<i>'')" "newline \<notin> set (ascii ''</i>'')"
  "newline \<notin> set (ascii ''<br/>'')" "newline \<notin> set (ascii ''&bull;'')"
  "bullet \<notin> set (ascii ''<b>'')" "bullet \<notin> set (ascii ''</b>'')"
  "bullet \<notin> set (ascii ''<i>'')" "bullet \<notin> set (ascii ''</i>'')"
  "bullet \<notin> set (ascii ''<br/>'')" "bullet \<notin> set (ascii ''&bull;'')"
  by (simp_all add: ascii_def star_def newline_def bullet_def)

lemma special_distinct:
  "star \<noteq> newline" "star \<noteq> bullet" "newline \<noteq> bullet"
  by (simp_all add: star_def newline_def bullet_def)


lemma replace_char_absent_other:
  "c \<notin> set s \<Longrightarrow> c \<notin> set new \<Longrightarrow> c \<notin> set (replace_char old new s)"
  by (induction s) (simp_all add: replace_char_def)



lemma replace_char_append:
  "replace_char old new (s @ t) = replace_char old new s @ replace_char old new t"
  by (simp add: replace_char_def)













subsection \<open>Each character and what becomes of it\<close>

lemma expands_Nil: "expands R [] []"
  by (simp add: expands_def)

lemma expands_Nil_iff: "expands R [] out \<longleftrightarrow> out = []"
  by (auto simp: expands_def)

lemma expands_Cons: "R c r \<Longrightarrow> expands R cs out \<Longrightarrow> expands R (c # cs) (r @ out)"
proof -
  assume r: "R c r" and "expands R cs out"
  then obtain rs where "list_all2 R cs rs" and "out = concat rs"
    by (auto simp: expands_def)
  with r have "list_all2 R (c # cs) (r # rs)" and "r @ out = concat (r # rs)"
    by simp_all
  then show ?thesis
    unfolding expands_def by blast
qed

lemma expands_ConsD:
  assumes "expands R (c # cs) out"
  shows "\<exists>r out'. out = r @ out' \<and> R c r \<and> expands R cs out'"
proof -
  from assms obtain rs where l: "list_all2 R (c # cs) rs" and o: "out = concat rs"
    by (auto simp: expands_def)
  from l obtain r rs' where "rs = r # rs'" and "R c r" and "list_all2 R cs rs'"
    by (auto simp: list_all2_Cons1)
  with o show ?thesis
    unfolding expands_def by auto
qed

lemma expands_single: "expands R [c] r \<longleftrightarrow> R c r"
proof
  assume "expands R [c] r"
  from expands_ConsD [OF this] show "R c r"
    by (auto simp: expands_Nil_iff)
next
  assume "R c r"
  then have "expands R (c # []) (r @ [])"
    using expands_Nil by (rule expands_Cons)
  then show "expands R [c] r"
    by simp
qed

lemma expands_append:
  "expands R a u \<Longrightarrow> expands R b v \<Longrightarrow> expands R (a @ b) (u @ v)"
proof (induction a arbitrary: u)
  case Nil
  then show ?case by (simp add: expands_Nil_iff)
next
  case (Cons c a)
  from expands_ConsD [OF Cons.prems(1)] obtain r u' where u: "u = r @ u'" and r: "R c r"
    and a: "expands R a u'"
    by blast
  from a Cons.prems(2) have "expands R (a @ b) (u' @ v)"
    by (rule Cons.IH)
  with r have "expands R (c # (a @ b)) (r @ (u' @ v))"
    by (rule expands_Cons)
  with u show ?case
    by simp
qed

lemma expands_same:
  "(\<And>c. c \<in> set x \<Longrightarrow> R c [c]) \<Longrightarrow> expands R x x"
proof (induction x)
  case Nil
  show ?case by (rule expands_Nil)
next
  case (Cons c x)
  then have "R c [c]" and "expands R x x"
    by simp_all
  then have "expands R (c # x) ([c] @ x)"
    by (rule expands_Cons)
  then show ?case by simp
qed

lemma expands_fixed:
  assumes "\<And>c r. c \<in> set m \<Longrightarrow> R c r \<Longrightarrow> r = [c]"
  shows "expands R m r \<Longrightarrow> r = m"
  using assms
proof (induction m arbitrary: r)
  case Nil
  then show ?case by (simp add: expands_Nil_iff)
next
  case (Cons c m)
  from expands_ConsD [OF Cons.prems(1)] obtain q r' where r: "r = q @ r'" and q: "R c q"
    and m: "expands R m r'"
    by blast
  from Cons.prems(2) [OF _ q] have "q = [c]" by simp
  moreover from Cons.IH [OF m] Cons.prems(2) have "r' = m" by simp
  ultimately show ?case using r by simp
qed

lemma expands_then:
  assumes "\<And>c m r. R c m \<Longrightarrow> expands Q m r \<Longrightarrow> R' c r"
  shows "expands R s u \<Longrightarrow> expands Q u v \<Longrightarrow> expands R' s v"
proof (induction s arbitrary: u v)
  case Nil
  then show ?case by (simp add: expands_Nil_iff)
next
  case (Cons c s)
  from expands_ConsD [OF Cons.prems(1)] obtain m u' where u: "u = m @ u'" and m: "R c m"
    and s: "expands R s u'"
    by blast
  from Cons.prems(2) u obtain rs where l: "list_all2 Q (m @ u') rs" and v: "v = concat rs"
    by (auto simp: expands_def)
  from l obtain ra rb where rs: "rs = ra @ rb" and la: "list_all2 Q m ra"
    and lb: "list_all2 Q u' rb"
    by (auto simp: list_all2_append1)
  from la have "expands Q m (concat ra)"
    unfolding expands_def by blast
  with m have c: "R' c (concat ra)"
    by (rule assms)
  from lb have "expands Q u' (concat rb)"
    unfolding expands_def by blast
  with s have "expands R' s (concat rb)"
    by (rule Cons.IH)
  with c have "expands R' (c # s) (concat ra @ concat rb)"
    by (rule expands_Cons)
  with v rs show ?case
    by simp
qed

lemma after_bold_same: "after_bold c [c]"
  by (simp add: after_bold_def)

lemma italic_step_same: "italic_step c [c]"
  by (simp add: italic_step_def)

lemma bold_delimiters:
  "expands after_bold [star, star] (ascii ''<b>'')"
  "expands after_bold [star, star] (ascii ''</b>'')"
proof -
  have e: "expands after_bold [star] []"
    by (simp add: expands_single after_bold_def)
  have "after_bold star (ascii ''<b>'')"
    by (simp add: after_bold_def)
  then have "expands after_bold (star # [star]) (ascii ''<b>'' @ [])"
    using e by (rule expands_Cons)
  then show "expands after_bold [star, star] (ascii ''<b>'')"
    by simp
  have "after_bold star (ascii ''</b>'')"
    by (simp add: after_bold_def)
  then have "expands after_bold (star # [star]) (ascii ''</b>'' @ [])"
    using e by (rule expands_Cons)
  then show "expands after_bold [star, star] (ascii ''</b>'')"
    by simp
qed

lemma italic_delimiters:
  "expands italic_step [star] (ascii ''<i>'')"
  "expands italic_step [star] (ascii ''</i>'')"
  by (simp_all add: expands_single italic_step_def)

lemma sub_bold_expands: "expands after_bold s (sub_bold s)"
proof (induction s rule: sub_bold.induct)
  case 1
  show ?case by (simp add: expands_Nil)
next
  case (2 c cs)
  show ?case
  proof (cases "match_bold (c # cs)")
    case None
    with "2.IH"(1) have "expands after_bold cs (sub_bold cs)" by simp
    with after_bold_same have "expands after_bold (c # cs) ([c] @ sub_bold cs)"
      by (rule expands_Cons)
    with None show ?thesis by simp
  next
    case (Some p)
    obtain x rest where p: "p = (x, rest)" by (cases p)
    from match_bold_decomp [OF Some [unfolded p]]
    have d: "c # cs = [star, star] @ x @ [star, star] @ rest" by simp
    have r: "expands after_bold rest (sub_bold rest)"
      using "2.IH"(2) [OF Some p [symmetric]] .
    have x: "expands after_bold x x"
      by (rule expands_same) (rule after_bold_same)
    from bold_delimiters(2) r
    have "expands after_bold ([star, star] @ rest) (ascii ''</b>'' @ sub_bold rest)"
      by (rule expands_append)
    with x have "expands after_bold (x @ [star, star] @ rest) (x @ ascii ''</b>'' @ sub_bold rest)"
      by (rule expands_append)
    with bold_delimiters(1)
    have "expands after_bold ([star, star] @ x @ [star, star] @ rest)
        (ascii ''<b>'' @ x @ ascii ''</b>'' @ sub_bold rest)"
      by (rule expands_append)
    with Some p show ?thesis
      unfolding d [symmetric] by simp
  qed
qed

lemma sub_italic_expands: "expands italic_step s (sub_italic s)"
proof (induction s rule: sub_italic.induct)
  case 1
  show ?case by (simp add: expands_Nil)
next
  case (2 c cs)
  show ?case
  proof (cases "match_italic (c # cs)")
    case None
    with "2.IH"(1) have "expands italic_step cs (sub_italic cs)" by simp
    with italic_step_same have "expands italic_step (c # cs) ([c] @ sub_italic cs)"
      by (rule expands_Cons)
    with None show ?thesis by simp
  next
    case (Some p)
    obtain x rest where p: "p = (x, rest)" by (cases p)
    from match_italic_decomp [OF Some [unfolded p]]
    have d: "c # cs = [star] @ x @ [star] @ rest" by simp
    have r: "expands italic_step rest (sub_italic rest)"
      using "2.IH"(2) [OF Some p [symmetric]] .
    have x: "expands italic_step x x"
      by (rule expands_same) (rule italic_step_same)
    from italic_delimiters(2) r
    have "expands italic_step ([star] @ rest) (ascii ''</i>'' @ sub_italic rest)"
      by (rule expands_append)
    with x have "expands italic_step (x @ [star] @ rest) (x @ ascii ''</i>'' @ sub_italic rest)"
      by (rule expands_append)
    with italic_delimiters(1)
    have "expands italic_step ([star] @ x @ [star] @ rest)
        (ascii ''<i>'' @ x @ ascii ''</i>'' @ sub_italic rest)"
      by (rule expands_append)
    with Some p show ?thesis
      unfolding d [symmetric] by simp
  qed
qed

lemma replace_char_expands: "expands (replace_step old new) s (replace_char old new s)"
proof -
  have "list_all2 (replace_step old new) s (map (\<lambda>c. if c = old then new else [c]) s)"
    by (simp add: list_all2_map2 list_all2_same replace_step_def)
  then show ?thesis
    unfolding expands_def replace_char_def by blast
qed

lemma italic_fixed:
  assumes "star \<notin> set m" and "expands italic_step m r"
  shows "r = m"
proof -
  have "\<And>c q. c \<in> set m \<Longrightarrow> italic_step c q \<Longrightarrow> q = [c]"
  proof -
    fix c q
    assume "c \<in> set m" and i: "italic_step c q"
    with assms(1) have "c \<noteq> star" by auto
    with i show "q = [c]" by (simp add: italic_step_def)
  qed
  then show ?thesis
    using assms(2) by (rule expands_fixed)
qed

lemma replace_fixed:
  assumes "old \<notin> set m" and "expands (replace_step old new) m r"
  shows "r = m"
proof -
  have "\<And>c q. c \<in> set m \<Longrightarrow> replace_step old new c q \<Longrightarrow> q = [c]"
  proof -
    fix c q
    assume "c \<in> set m" and i: "replace_step old new c q"
    with assms(1) have "c \<noteq> old" by auto
    with i show "q = [c]" by (simp add: replace_step_def)
  qed
  then show ?thesis
    using assms(2) by (rule expands_fixed)
qed

lemma bold_then_italic:
  assumes "after_bold c m" and "expands italic_step m r"
  shows "after_italic c r"
proof (cases "c = star")
  case False
  with assms(1) have "m = [c]" by (simp add: after_bold_def)
  with assms(2) False show ?thesis
    by (simp add: expands_single italic_step_def after_italic_def)
next
  case True
  with assms(1) consider "m = []" | "m = [star]" | "m = ascii ''<b>''" | "m = ascii ''</b>''"
    by (auto simp: after_bold_def)
  then show ?thesis
  proof cases
    case 1
    with assms(2) True show ?thesis
      by (simp add: expands_Nil_iff after_italic_def)
  next
    case 2
    with assms(2) True show ?thesis
      by (auto simp: expands_single italic_step_def after_italic_def)
  next
    case 3
    with assms(2) have "r = m" by (simp add: italic_fixed tag_chars)
    with 3 True show ?thesis by (simp add: after_italic_def)
  next
    case 4
    with assms(2) have "r = m" by (simp add: italic_fixed tag_chars)
    with 4 True show ?thesis by (simp add: after_italic_def)
  qed
qed

lemma italic_then_newline:
  assumes "after_italic c m" and "expands (replace_step newline (ascii ''<br/>'')) m r"
  shows "after_newline c r"
proof (cases "c = star")
  case False
  with assms(1) have "m = [c]" by (simp add: after_italic_def)
  with assms(2) False show ?thesis
    by (simp add: expands_single replace_step_def after_newline_def)
next
  case True
  with assms(1) have "newline \<notin> set m"
    using special_distinct(1) by (auto simp: after_italic_def tag_chars)
  with assms(2) have "r = m" by (simp add: replace_fixed)
  with assms(1) True show ?thesis
    by (simp add: after_italic_def after_newline_def)
qed

lemma newline_then_bullet:
  assumes "after_newline c m" and "expands (replace_step bullet (ascii ''&bull;'')) m r"
  shows "rewrite_of c r"
proof (cases "c = star \<or> c = newline")
  case False
  with assms(1) have "m = [c]" by (simp add: after_newline_def)
  with assms(2) False show ?thesis
    by (simp add: expands_single replace_step_def rewrite_of_def)
next
  case True
  with assms(1) have "bullet \<notin> set m"
    using special_distinct(2) special_distinct(1)
    by (auto simp: after_newline_def tag_chars split: if_splits)
  with assms(2) have "r = m" by (simp add: replace_fixed)
  with assms(1) True show ?thesis
    using special_distinct(1)
    by (auto simp: after_newline_def rewrite_of_def split: if_splits)
qed

text \<open>
  C10. The converter only rewrites asterisks, newlines and bullet glyphs. The output is
  the input with each character replaced in place: an asterisk by nothing, by itself or
  by an emphasis tag, a newline by the line-break tag, a bullet glyph by its entity, and
  every other character, \<open><\<close>, \<open>>\<close> and \<open>&\<close> among them, by itself alone, so
  unescaped and in its original order.
\<close>

theorem convert_rewrites_markers_only:
  "(\<exists>rs. list_all2 rewrite_of text rs \<and> convert_markdown_to_html text = concat rs)
   \<and> subseq (filter untouched text) (convert_markdown_to_html text)"
proof
  let ?t1 = "sub_bold text"
  let ?t2 = "sub_italic ?t1"
  let ?t3 = "replace_char newline (ascii ''<br/>'') ?t2"
  let ?t4 = "replace_char bullet (ascii ''&bull;'') ?t3"
  have 2: "expands after_italic text ?t2"
    using bold_then_italic sub_bold_expands sub_italic_expands by (rule expands_then)
  have 3: "expands after_newline text ?t3"
    using italic_then_newline 2 replace_char_expands by (rule expands_then)
  have 4: "expands rewrite_of text ?t4"
    using newline_then_bullet 3 replace_char_expands by (rule expands_then)
  then show "\<exists>rs. list_all2 rewrite_of text rs \<and> convert_markdown_to_html text = concat rs"
    by (simp add: expands_def convert_markdown_to_html_def)
next
  show "subseq (filter untouched text) (convert_markdown_to_html text)"
    by (rule convert_subseq_untouched)
qed

theorem convert_rewrites_markers_only_witness:
  "list_all2 rewrite_of (ascii ''a<&*b'')
     [ascii ''a'', ascii ''<'', ascii ''&'', ascii ''*'', ascii ''b'']
   \<and> convert_markdown_to_html (ascii ''a<&*b'') = ascii ''a<&*b''
   \<and> (\<exists>rs. list_all2 rewrite_of (ascii ''a<&*b'') rs
         \<and> convert_markdown_to_html (ascii ''a<&*b'') = concat rs)
   \<and> \<not> rewrite_of 38 (ascii ''&amp;'')"
proof (intro conjI)
  show "list_all2 rewrite_of (ascii ''a<&*b'')
     [ascii ''a'', ascii ''<'', ascii ''&'', ascii ''*'', ascii ''b'']"
    by (simp add: rewrite_of_def ascii_def star_def newline_def bullet_def)
  show "convert_markdown_to_html (ascii ''a<&*b'') = ascii ''a<&*b''"
    by (simp add: convert_markdown_to_html_def match_bold_def match_italic_def
        replace_char_def ascii_def star_def newline_def bullet_def)
  show "\<exists>rs. list_all2 rewrite_of (ascii ''a<&*b'') rs
         \<and> convert_markdown_to_html (ascii ''a<&*b'') = concat rs"
    using convert_rewrites_markers_only [of "ascii ''a<&*b''"] by (rule conjunct1)
  show "\<not> rewrite_of 38 (ascii ''&amp;'')"
    by (simp add: rewrite_of_def ascii_def star_def newline_def bullet_def)
qed

subsection \<open>A bold span\<close>

lemma stars_ascii: "ascii ''**'' = [star, star]" "ascii ''*'' = [star]"
  by (simp_all add: ascii_def star_def)

lemma close_bold_found:
  "star \<notin> set x \<Longrightarrow> newline \<notin> set x \<Longrightarrow> close_bold (x @ star # star # rest) = Some (x, rest)"
  by (induction x) simp_all

lemma bold_span_one_line:
  assumes "star \<notin> set X" and "newline \<notin> set X"
  shows "convert_markdown_to_html (ascii ''**'' @ X @ ascii ''**'')
           = ascii ''<b>'' @ replace_char bullet (ascii ''&bull;'') X @ ascii ''</b>''
         \<and> (bullet \<notin> set X \<longrightarrow>
              convert_markdown_to_html (ascii ''**'' @ X @ ascii ''**'')
                = ascii ''<b>'' @ X @ ascii ''</b>'')
         \<and> \<not> sublist (ascii ''**'') (convert_markdown_to_html (ascii ''**'' @ X @ ascii ''**''))"
proof -
  let ?out = "ascii ''<b>'' @ X @ ascii ''</b>''"
  have "match_bold (star # star # X @ [star, star]) = Some (X, [])"
    using assms close_bold_found [of X "[]"] by (simp add: match_bold_def)
  then have b: "sub_bold (ascii ''**'' @ X @ ascii ''**'') = ?out"
    by (simp add: stars_ascii)
  have s: "star \<notin> set ?out" and n: "newline \<notin> set ?out"
    using assms by (simp_all add: tag_chars)
  have c: "convert_markdown_to_html (ascii ''**'' @ X @ ascii ''**'')
      = ascii ''<b>'' @ replace_char bullet (ascii ''&bull;'') X @ ascii ''</b>''"
    unfolding convert_markdown_to_html_def Let_def b
    using assms
    by (simp add: sub_italic_no_star [OF s] replace_char_absent [OF n] replace_char_append
        replace_char_absent tag_chars)
  have "star \<notin> set (convert_markdown_to_html (ascii ''**'' @ X @ ascii ''**''))"
    unfolding c using assms by (simp add: tag_chars replace_char_absent_other)
  then have "\<not> sublist (ascii ''**'') (convert_markdown_to_html (ascii ''**'' @ X @ ascii ''**''))"
    using set_mono_sublist [of "ascii ''**''"] by (auto simp: stars_ascii)
  with c show ?thesis
    by (simp add: replace_char_absent)
qed

lemma close_bold_line_end:
  "star \<notin> set x \<Longrightarrow> newline \<in> set x \<Longrightarrow> close_bold (x @ r) = None"
proof (induction x)
  case Nil
  then show ?case by simp
next
  case (Cons c x)
  then have c: "c \<noteq> star" by simp
  show ?case
  proof (cases "c = newline")
    case True
    with c show ?thesis by simp
  next
    case False
    with Cons have "close_bold (x @ r) = None" by simp
    with c False show ?thesis by simp
  qed
qed

lemma stars_only:
  "sub_bold [star, star] = [star, star]" "sub_italic [star, star] = ascii ''<i></i>''"
  by (simp_all add: match_bold_def match_italic_def ascii_def)

lemma bold_span_over_lines:
  assumes "star \<notin> set X" and "newline \<in> set X"
  shows "sub_italic (sub_bold ([star, star] @ X @ [star, star]))
           = ascii ''<i></i>'' @ X @ ascii ''<i></i>''"
proof -
  from assms(2) obtain a Y where X: "X = a # Y"
    by (cases X) auto
  with assms(1) have a: "a \<noteq> star" by simp
  have "match_bold (star # star # X @ [star, star]) = None"
    using close_bold_line_end [OF assms] by (simp add: match_bold_def)
  moreover have "match_bold (star # X @ [star, star]) = None"
    using a X by (simp add: match_bold_def)
  ultimately have "sub_bold ([star, star] @ X @ [star, star])
      = star # star # sub_bold (X @ [star, star])"
    by simp
  also have "\<dots> = star # star # X @ [star, star]"
    by (simp only: sub_bold_skip [OF assms(1)] stars_only)
  finally have b: "sub_bold ([star, star] @ X @ [star, star]) = star # star # X @ [star, star]" .
  have "match_italic (star # star # X @ [star, star]) = Some ([], X @ [star, star])"
    by (simp add: match_italic_def)
  then have "sub_italic (star # star # X @ [star, star])
      = ascii ''<i>'' @ [] @ ascii ''</i>'' @ sub_italic (X @ [star, star])"
    by simp
  also have "\<dots> = ascii ''<i>'' @ [] @ ascii ''</i>'' @ X @ ascii ''<i></i>''"
    by (simp only: sub_italic_skip [OF assms(1)] stars_only)
  also have "\<dots> = ascii ''<i></i>'' @ X @ ascii ''<i></i>''"
    by (simp add: ascii_def)
  finally show ?thesis
    unfolding b .
qed

lemma bold_span_no_star:
  assumes "star \<notin> set X"
  shows "star \<notin> set (convert_markdown_to_html (ascii ''**'' @ X @ ascii ''**''))"
proof (cases "newline \<in> set X")
  case True
  have "star \<notin> set (ascii ''<i></i>'')"
    by (simp add: ascii_def star_def)
  with assms have "star \<notin> set (ascii ''<i></i>'' @ X @ ascii ''<i></i>'')"
    by simp
  then show ?thesis
    unfolding convert_markdown_to_html_def Let_def stars_ascii
      bold_span_over_lines [OF assms True]
    by (intro replace_char_absent_other) (simp_all add: tag_chars)
next
  case False
  have "match_bold (star # star # X @ [star, star]) = Some (X, [])"
    using assms False close_bold_found [of X "[]"] by (simp add: match_bold_def)
  then have b: "sub_bold (ascii ''**'' @ X @ ascii ''**'') = ascii ''<b>'' @ X @ ascii ''</b>''"
    by (simp add: stars_ascii)
  have s: "star \<notin> set (ascii ''<b>'' @ X @ ascii ''</b>'')"
    using assms by (simp add: tag_chars)
  show ?thesis
    unfolding convert_markdown_to_html_def Let_def b sub_italic_no_star [OF s]
    using s by (intro replace_char_absent_other) (simp_all add: tag_chars)
qed

text \<open>
  C7, as stated (for every \<open>X\<close> without an asterisk the conversion of \<open>**X**\<close> holds a
  bold wrapping of \<open>X\<close>), fails when \<open>X\<close> holds a newline: the bold pattern does not
  match across it, the italic rule pairs the two asterisks of each delimiter, and no
  bold tag is produced at all. And a bullet glyph of \<open>X\<close> is not wrapped as it is: it
  stands in the wrapping as its entity.
\<close>

theorem convert_bold_span_over_lines:
  "star \<notin> set (ascii ''a'' @ [newline] @ ascii ''b'')
   \<and> convert_markdown_to_html (ascii ''**'' @ (ascii ''a'' @ [newline] @ ascii ''b'') @ ascii ''**'')
       = ascii ''<i></i>a<br/>b<i></i>''
   \<and> \<not> sublist (ascii ''<b>'')
         (convert_markdown_to_html (ascii ''**'' @ (ascii ''a'' @ [newline] @ ascii ''b'') @ ascii ''**''))
   \<and> star \<notin> set [bullet]
   \<and> convert_markdown_to_html (ascii ''**'' @ [bullet] @ ascii ''**'') = ascii ''<b>&bull;</b>''
   \<and> \<not> sublist (ascii ''<b>'' @ [bullet] @ ascii ''</b>'')
         (convert_markdown_to_html (ascii ''**'' @ [bullet] @ ascii ''**''))"
proof -
  have c: "convert_markdown_to_html (ascii ''**'' @ (ascii ''a'' @ [newline] @ ascii ''b'') @ ascii ''**'')
       = ascii ''<i></i>a<br/>b<i></i>''"
    by (simp add: convert_markdown_to_html_def match_bold_def match_italic_def replace_char_def
      ascii_def star_def newline_def bullet_def)
  have "\<not> sublist (ascii ''<b>'') (ascii ''<i></i>a<br/>b<i></i>'')"
    by (simp add: ascii_def sublist_Cons_right)
  with c have 1: "star \<notin> set (ascii ''a'' @ [newline] @ ascii ''b'')
   \<and> convert_markdown_to_html (ascii ''**'' @ (ascii ''a'' @ [newline] @ ascii ''b'') @ ascii ''**'')
       = ascii ''<i></i>a<br/>b<i></i>''
   \<and> \<not> sublist (ascii ''<b>'')
         (convert_markdown_to_html (ascii ''**'' @ (ascii ''a'' @ [newline] @ ascii ''b'') @ ascii ''**''))"
    by (simp add: ascii_def star_def newline_def)
  have d: "convert_markdown_to_html (ascii ''**'' @ [bullet] @ ascii ''**'') = ascii ''<b>&bull;</b>''"
    by (simp add: convert_markdown_to_html_def match_bold_def match_italic_def replace_char_def
      ascii_def star_def newline_def bullet_def)
  have "\<not> sublist (ascii ''<b>'' @ [bullet] @ ascii ''</b>'') (ascii ''<b>&bull;</b>'')"
    by (simp add: ascii_def bullet_def sublist_Cons_right)
  with d have 2: "star \<notin> set [bullet]
   \<and> convert_markdown_to_html (ascii ''**'' @ [bullet] @ ascii ''**'') = ascii ''<b>&bull;</b>''
   \<and> \<not> sublist (ascii ''<b>'' @ [bullet] @ ascii ''</b>'')
         (convert_markdown_to_html (ascii ''**'' @ [bullet] @ ascii ''**''))"
    by (simp add: star_def bullet_def)
  from 1 2 show ?thesis by blast
qed

text \<open>
  C7, amended. For every \<open>X\<close> with no asterisk, the conversion of \<open>**X**\<close> does not
  contain \<open>**\<close>; when \<open>X\<close> holds no newline either, the conversion is the bold wrapping
  of \<open>X\<close> with its bullet glyphs replaced by the entity, so of \<open>X\<close> itself when it
  holds no bullet glyph.
\<close>

theorem convert_bold_span:
  assumes "star \<notin> set X"
  shows "\<not> sublist (ascii ''**'') (convert_markdown_to_html (ascii ''**'' @ X @ ascii ''**''))
    \<and> (newline \<notin> set X \<longrightarrow>
          convert_markdown_to_html (ascii ''**'' @ X @ ascii ''**'')
            = ascii ''<b>'' @ replace_char bullet (ascii ''&bull;'') X @ ascii ''</b>'')
    \<and> (newline \<notin> set X \<longrightarrow> bullet \<notin> set X \<longrightarrow>
          convert_markdown_to_html (ascii ''**'' @ X @ ascii ''**'')
            = ascii ''<b>'' @ X @ ascii ''</b>'')"
proof (intro conjI impI)
  show "\<not> sublist (ascii ''**'') (convert_markdown_to_html (ascii ''**'' @ X @ ascii ''**''))"
  proof
    assume "sublist (ascii ''**'') (convert_markdown_to_html (ascii ''**'' @ X @ ascii ''**''))"
    then have "set (ascii ''**'')
        \<subseteq> set (convert_markdown_to_html (ascii ''**'' @ X @ ascii ''**''))"
      by (rule set_mono_sublist)
    with bold_span_no_star [OF assms] show False
      by (simp add: stars_ascii)
  qed
next
  assume "newline \<notin> set X"
  with assms show "convert_markdown_to_html (ascii ''**'' @ X @ ascii ''**'')
      = ascii ''<b>'' @ replace_char bullet (ascii ''&bull;'') X @ ascii ''</b>''"
    using bold_span_one_line by blast
next
  assume "newline \<notin> set X" and "bullet \<notin> set X"
  with assms show "convert_markdown_to_html (ascii ''**'' @ X @ ascii ''**'')
      = ascii ''<b>'' @ X @ ascii ''</b>''"
    using bold_span_one_line by blast
qed

theorem convert_bold_span_witness:
  "star \<notin> set (ascii ''Key Point'') \<and> newline \<notin> set (ascii ''Key Point'')
   \<and> bullet \<notin> set (ascii ''Key Point'')
   \<and> convert_markdown_to_html (ascii ''**'' @ ascii ''Key Point'' @ ascii ''**'')
       = ascii ''<b>'' @ ascii ''Key Point'' @ ascii ''</b>''
   \<and> \<not> sublist (ascii ''**'')
         (convert_markdown_to_html (ascii ''**'' @ ascii ''Key Point'' @ ascii ''**''))"
proof -
  have s: "star \<notin> set (ascii ''Key Point'')"
    by (simp add: ascii_def star_def)
  have n: "newline \<notin> set (ascii ''Key Point'')"
    by (simp add: ascii_def newline_def)
  have b: "bullet \<notin> set (ascii ''Key Point'')"
    by (simp add: ascii_def bullet_def)
  from convert_bold_span [OF s] s n b show ?thesis
    by blast
qed

subsection \<open>The converter returns\<close>

lemma scan_bold:
  "re_sub_scan match_bold (\<lambda>x. ascii ''<b>'' @ x @ ascii ''</b>'') out s = Some (out @ sub_bold s)"
proof (induction s arbitrary: out rule: sub_bold.induct)
  case 1
  show ?case by (subst re_sub_scan.simps) simp
next
  case (2 c cs)
  show ?case
  proof (cases "match_bold (c # cs)")
    case None
    with "2.IH"(1) show ?thesis
      by (subst re_sub_scan.simps) simp
  next
    case (Some p)
    obtain x rest where p: "p = (x, rest)" by (cases p)
    from "2.IH"(2) [OF Some p [symmetric]] Some p show ?thesis
      by (subst re_sub_scan.simps) simp
  qed
qed

lemma scan_italic:
  "re_sub_scan match_italic (\<lambda>x. ascii ''<i>'' @ x @ ascii ''</i>'') out s
     = Some (out @ sub_italic s)"
proof (induction s arbitrary: out rule: sub_italic.induct)
  case 1
  show ?case by (subst re_sub_scan.simps) simp
next
  case (2 c cs)
  show ?case
  proof (cases "match_italic (c # cs)")
    case None
    with "2.IH"(1) show ?thesis
      by (subst re_sub_scan.simps) simp
  next
    case (Some p)
    obtain x rest where p: "p = (x, rest)" by (cases p)
    from "2.IH"(2) [OF Some p [symmetric]] Some p show ?thesis
      by (subst re_sub_scan.simps) simp
  qed
qed

text \<open>
  C5. The converter is total: on every input, the empty string and texts with
  unbalanced markers included, both substitution loops return and the converter yields
  one string, the value of \<open>convert_markdown_to_html\<close>. No step of it raises: a marker
  without a partner is a failed match attempt, after which the character is copied.
\<close>

theorem convert_returns: "convert_scan text = Some (convert_markdown_to_html text)"
  by (simp add: convert_scan_def convert_markdown_to_html_def scan_bold scan_italic)

theorem convert_returns_examples:
  "convert_scan [] = Some []
   \<and> convert_scan (ascii ''**a*'') = Some (ascii ''<i></i>a*'')"
proof -
  have "convert_markdown_to_html [] = []"
    by (simp add: convert_markdown_to_html_def replace_char_def)
  moreover have "convert_markdown_to_html (ascii ''**a*'') = ascii ''<i></i>a*''"
    by (simp add: convert_markdown_to_html_def match_bold_def match_italic_def
        replace_char_def ascii_def star_def newline_def bullet_def)
  ultimately show ?thesis
    using convert_returns [of "[]"] convert_returns [of "ascii ''**a*''"] by simp
qed

subsection \<open>The code against the rules of the specification\<close>

lemma flatten_simps:
  "flatten [] = []" "flatten (p # ps) = flat p @ flatten ps"
  "flatten (ps @ qs) = flatten ps @ flatten qs"
  by (simp_all add: flatten_def)

lemma flatten_map_Chr: "flatten (map Chr s) = s"
  by (induction s) (simp_all add: flatten_simps)

lemma inert_tags:
  "inert (Ins (ascii ''<b>''))" "inert (Ins (ascii ''</b>''))"
  "inert (Ins (ascii ''<i>''))" "inert (Ins (ascii ''</i>''))"
  "inert (Ins (ascii ''<br/>''))" "inert (Ins (ascii ''&bull;''))"
  by (simp_all add: ascii_def star_def newline_def bullet_def)

lemma spec_match_inert:
  assumes "spec_match multiline d ps = Some (x, rest)" and "list_all inert ps"
  shows "list_all inert x \<and> list_all inert rest"
proof -
  from spec_match_decomp [OF assms(1)] have "ps = d @ x @ d @ rest" by simp
  with assms(2) show ?thesis by (metis list_all_append)
qed

lemma spec_emphasis_inert:
  assumes "inert (Ins opn)" and "inert (Ins cls)"
  shows "list_all inert ps \<Longrightarrow> list_all inert (spec_emphasis multiline d opn cls ps)"
proof (induction "length ps" arbitrary: ps rule: less_induct)
  case less
  show ?case
  proof (cases ps)
    case Nil
    then show ?thesis by simp
  next
    case (Cons p qs)
    with less.prems have p: "inert p" and qs: "list_all inert qs" by simp_all
    show ?thesis
    proof (cases "spec_match multiline d ps")
      case None
      from less.hyps [OF _ qs] Cons have "list_all inert (spec_emphasis multiline d opn cls qs)"
        by simp
      with None Cons p show ?thesis by simp
    next
      case (Some xr)
      obtain x rest where xr: "xr = (x, rest)" by (cases xr)
      from spec_match_inert [OF Some [unfolded xr] less.prems]
      have x: "list_all inert x" and r: "list_all inert rest" by simp_all
      from less.hyps [OF spec_match_length [OF Some [unfolded xr]] r]
      have "list_all inert (spec_emphasis multiline d opn cls rest)" .
      with Some xr Cons x assms show ?thesis by simp
    qed
  qed
qed

lemma starts_with_star:
  assumes "list_all inert ps"
  shows "take 1 (flatten ps) = [star] \<longleftrightarrow> (\<exists>qs. ps = Chr star # qs)"
proof (cases ps)
  case Nil
  then show ?thesis by (simp add: flatten_simps)
next
  case (Cons p qs)
  show ?thesis
  proof (cases p)
    case (Chr c)
    with Cons show ?thesis by (auto simp: flatten_simps)
  next
    case (Ins s)
    with Cons assms obtain a s' where "s = a # s'" and "a \<noteq> star"
      by (cases s) auto
    with Cons Ins show ?thesis by (simp add: flatten_simps)
  qed
qed

lemma close_bold_skip:
  "star \<notin> set s \<Longrightarrow> newline \<notin> set s \<Longrightarrow>
     close_bold (s @ r)
       = (case close_bold r of None \<Rightarrow> None | Some (x, rest) \<Rightarrow> Some (s @ x, rest))"
proof (induction s)
  case Nil
  show ?case by (cases "close_bold r") auto
next
  case (Cons c s)
  then have "close_bold (s @ r)
      = (case close_bold r of None \<Rightarrow> None | Some (x, rest) \<Rightarrow> Some (s @ x, rest))"
    and "c \<noteq> star" and "c \<noteq> newline"
    by auto
  then show ?case
    by (cases "close_bold r") auto
qed

lemma close_bold_flatten:
  "list_all inert ps \<Longrightarrow>
     close_bold (flatten ps)
       = map_option (map_prod flatten flatten) (spec_close False [Chr star, Chr star] ps)"
proof (induction ps)
  case Nil
  then show ?case by (simp add: flatten_simps)
next
  case (Cons p ps)
  then have ih: "close_bold (flatten ps)
      = map_option (map_prod flatten flatten) (spec_close False [Chr star, Chr star] ps)"
    and ps: "list_all inert ps"
    by simp_all
  show ?case
  proof (cases p)
    case (Ins s)
    with Cons.prems have s: "star \<notin> set s" "newline \<notin> set s" and e: "s \<noteq> []"
      by simp_all
    have "close_bold (flatten (Ins s # ps))
        = (case close_bold (flatten ps) of
             None \<Rightarrow> None | Some (x, rest) \<Rightarrow> Some (s @ x, rest))"
      using close_bold_skip [OF s] by (simp add: flatten_simps)
    moreover have "spec_close False [Chr star, Chr star] (Ins s # ps)
        = (case spec_close False [Chr star, Chr star] ps of
             None \<Rightarrow> None | Some (x, rest) \<Rightarrow> Some (Ins s # x, rest))"
      by simp
    ultimately show ?thesis
      unfolding Ins using ih
      by (cases "spec_close False [Chr star, Chr star] ps") (auto simp: flatten_simps)
  next
    case (Chr c)
    show ?thesis
    proof (cases "c = star \<and> (\<exists>qs. ps = Chr star # qs)")
      case True
      then obtain qs where "c = star" and "ps = Chr star # qs" by auto
      with Chr show ?thesis by (simp add: flatten_simps)
    next
      case False
      with starts_with_star [OF ps] have f: "\<not> (c = star \<and> take 1 (flatten ps) = [star])"
        by simp
      from False have g: "\<not> prefix [Chr star, Chr star] (Chr c # ps)"
        by (cases ps) auto
      show ?thesis
      proof (cases "c = newline")
        case True
        then have "c \<noteq> star" using special_distinct(1) by simp
        with g True Chr show ?thesis by (simp add: flatten_simps)
      next
        case n: False
        have "close_bold (flatten (Chr c # ps))
            = (case close_bold (flatten ps) of
                 None \<Rightarrow> None | Some (x, rest) \<Rightarrow> Some (c # x, rest))"
          using f n by (auto simp: flatten_simps)
        moreover have "spec_close False [Chr star, Chr star] (Chr c # ps)
            = (case spec_close False [Chr star, Chr star] ps of
                 None \<Rightarrow> None | Some (x, rest) \<Rightarrow> Some (Chr c # x, rest))"
          using g n by auto
        ultimately show ?thesis
          unfolding Chr using ih
          by (cases "spec_close False [Chr star, Chr star] ps") (auto simp: flatten_simps)
      qed
    qed
  qed
qed

lemma match_bold_flatten:
  assumes "list_all inert ps"
  shows "match_bold (flatten ps)
           = map_option (map_prod flatten flatten) (spec_match False [Chr star, Chr star] ps)"
proof (cases "\<exists>qs. ps = Chr star # Chr star # qs")
  case True
  then obtain qs where ps: "ps = Chr star # Chr star # qs" by auto
  with assms have "list_all inert qs" by simp
  from close_bold_flatten [OF this] ps show ?thesis
    by (simp add: match_bold_def spec_match_def flatten_simps)
next
  case False
  then have n: "spec_match False [Chr star, Chr star] ps = None"
    by (auto simp: spec_match_def prefix_def)
  have "take 2 (flatten ps) \<noteq> [star, star]"
  proof
    assume t: "take 2 (flatten ps) = [star, star]"
    then have "take 1 (take 2 (flatten ps)) = [star]" by simp
    then have "take 1 (flatten ps) = [star]" by simp
    with starts_with_star [OF assms] obtain qs where ps: "ps = Chr star # qs" by auto
    with assms have qs: "list_all inert qs" by simp
    from t ps have "take 1 (flatten qs) = [star]"
      by (simp add: flatten_simps numeral_2_eq_2)
    with starts_with_star [OF qs] obtain rs where "qs = Chr star # rs" by auto
    with ps False show False by simp
  qed
  with n show ?thesis by (simp add: match_bold_def)
qed

lemma sub_bold_flatten:
  "list_all inert ps \<Longrightarrow>
     sub_bold (flatten ps)
       = flatten (spec_emphasis False [Chr star, Chr star] (ascii ''<b>'') (ascii ''</b>'') ps)"
proof (induction "length ps" arbitrary: ps rule: less_induct)
  case less
  show ?case
  proof (cases ps)
    case Nil
    then show ?thesis by (simp add: flatten_simps)
  next
    case (Cons p qs)
    with less.prems have qs: "list_all inert qs" by simp
    from Cons have ih_qs: "sub_bold (flatten qs)
        = flatten (spec_emphasis False [Chr star, Chr star] (ascii ''<b>'') (ascii ''</b>'') qs)"
      using less.hyps [OF _ qs] by simp
    show ?thesis
    proof (cases p)
      case (Ins s)
      with Cons less.prems have "star \<notin> set s" by simp
      moreover from Ins Cons have "spec_match False [Chr star, Chr star] ps = None"
        by (simp add: spec_match_def)
      ultimately show ?thesis
        using Cons Ins ih_qs by (simp add: flatten_simps sub_bold_skip)
    next
      case (Chr c)
      then have f: "flatten ps = c # flatten qs"
        using Cons by (simp add: flatten_simps)
      show ?thesis
      proof (cases "spec_match False [Chr star, Chr star] ps")
        case None
        with match_bold_flatten [OF less.prems] f have "match_bold (c # flatten qs) = None"
          by simp
        with None f Cons Chr ih_qs show ?thesis
          by (simp add: flatten_simps)
      next
        case (Some xr)
        obtain x rest where xr: "xr = (x, rest)" by (cases xr)
        from spec_match_inert [OF Some [unfolded xr] less.prems]
        have r: "list_all inert rest" by simp
        from less.hyps [OF spec_match_length [OF Some [unfolded xr]] r]
        have ih: "sub_bold (flatten rest)
          = flatten (spec_emphasis False [Chr star, Chr star] (ascii ''<b>'') (ascii ''</b>'') rest)" .
        from match_bold_flatten [OF less.prems] f Some xr
        have "match_bold (c # flatten qs) = Some (flatten x, flatten rest)"
          by simp
        with Some xr f Cons ih show ?thesis
          by (simp add: flatten_simps)
      qed
    qed
  qed
qed

lemma close_italic_skip:
  "star \<notin> set s \<Longrightarrow> newline \<notin> set s \<Longrightarrow>
     close_italic (s @ r)
       = (case close_italic r of None \<Rightarrow> None | Some (x, rest) \<Rightarrow> Some (s @ x, rest))"
proof (induction s)
  case Nil
  show ?case by (cases "close_italic r") auto
next
  case (Cons c s)
  then have "close_italic (s @ r)
      = (case close_italic r of None \<Rightarrow> None | Some (x, rest) \<Rightarrow> Some (s @ x, rest))"
    and "c \<noteq> star" and "c \<noteq> newline"
    by auto
  then show ?case
    by (cases "close_italic r") auto
qed

lemma close_italic_flatten:
  "list_all inert ps \<Longrightarrow>
     close_italic (flatten ps)
       = map_option (map_prod flatten flatten) (spec_close False [Chr star] ps)"
proof (induction ps)
  case Nil
  then show ?case by (simp add: flatten_simps)
next
  case (Cons p ps)
  then have ih: "close_italic (flatten ps)
      = map_option (map_prod flatten flatten) (spec_close False [Chr star] ps)"
    by simp
  show ?case
  proof (cases p)
    case (Ins s)
    with Cons.prems have s: "star \<notin> set s" "newline \<notin> set s"
      by simp_all
    have "close_italic (flatten (Ins s # ps))
        = (case close_italic (flatten ps) of
             None \<Rightarrow> None | Some (x, rest) \<Rightarrow> Some (s @ x, rest))"
      using close_italic_skip [OF s] by (simp add: flatten_simps)
    moreover have "spec_close False [Chr star] (Ins s # ps)
        = (case spec_close False [Chr star] ps of
             None \<Rightarrow> None | Some (x, rest) \<Rightarrow> Some (Ins s # x, rest))"
      by simp
    ultimately show ?thesis
      unfolding Ins using ih
      by (cases "spec_close False [Chr star] ps") (auto simp: flatten_simps)
  next
    case (Chr c)
    show ?thesis
    proof (cases "c = star")
      case True
      with Chr show ?thesis by (simp add: flatten_simps)
    next
      case False
      show ?thesis
      proof (cases "c = newline")
        case True
        with False Chr show ?thesis by (simp add: flatten_simps)
      next
        case n: False
        have "close_italic (flatten (Chr c # ps))
            = (case close_italic (flatten ps) of
                 None \<Rightarrow> None | Some (x, rest) \<Rightarrow> Some (c # x, rest))"
          using False n by (auto simp: flatten_simps)
        moreover have "spec_close False [Chr star] (Chr c # ps)
            = (case spec_close False [Chr star] ps of
                 None \<Rightarrow> None | Some (x, rest) \<Rightarrow> Some (Chr c # x, rest))"
          using False n by auto
        ultimately show ?thesis
          unfolding Chr using ih
          by (cases "spec_close False [Chr star] ps") (auto simp: flatten_simps)
      qed
    qed
  qed
qed

lemma match_italic_flatten:
  assumes "list_all inert ps"
  shows "match_italic (flatten ps)
           = map_option (map_prod flatten flatten) (spec_match False [Chr star] ps)"
proof (cases "\<exists>qs. ps = Chr star # qs")
  case True
  then obtain qs where ps: "ps = Chr star # qs" by auto
  with assms have "list_all inert qs" by simp
  from close_italic_flatten [OF this] ps show ?thesis
    by (simp add: match_italic_def spec_match_def flatten_simps)
next
  case False
  then have n: "spec_match False [Chr star] ps = None"
    by (auto simp: spec_match_def prefix_def)
  from False starts_with_star [OF assms] have "take 1 (flatten ps) \<noteq> [star]"
    by simp
  with n show ?thesis by (simp add: match_italic_def)
qed

lemma sub_italic_flatten:
  "list_all inert ps \<Longrightarrow>
     sub_italic (flatten ps)
       = flatten (spec_emphasis False [Chr star] (ascii ''<i>'') (ascii ''</i>'') ps)"
proof (induction "length ps" arbitrary: ps rule: less_induct)
  case less
  show ?case
  proof (cases ps)
    case Nil
    then show ?thesis by (simp add: flatten_simps)
  next
    case (Cons p qs)
    with less.prems have qs: "list_all inert qs" by simp
    from Cons have ih_qs: "sub_italic (flatten qs)
        = flatten (spec_emphasis False [Chr star] (ascii ''<i>'') (ascii ''</i>'') qs)"
      using less.hyps [OF _ qs] by simp
    show ?thesis
    proof (cases p)
      case (Ins s)
      with Cons less.prems have "star \<notin> set s" by simp
      moreover from Ins Cons have "spec_match False [Chr star] ps = None"
        by (simp add: spec_match_def)
      ultimately show ?thesis
        using Cons Ins ih_qs by (simp add: flatten_simps sub_italic_skip)
    next
      case (Chr c)
      then have f: "flatten ps = c # flatten qs"
        using Cons by (simp add: flatten_simps)
      show ?thesis
      proof (cases "spec_match False [Chr star] ps")
        case None
        with match_italic_flatten [OF less.prems] f have "match_italic (c # flatten qs) = None"
          by simp
        with None f Cons Chr ih_qs show ?thesis
          by (simp add: flatten_simps)
      next
        case (Some xr)
        obtain x rest where xr: "xr = (x, rest)" by (cases xr)
        from spec_match_inert [OF Some [unfolded xr] less.prems]
        have r: "list_all inert rest" by simp
        from less.hyps [OF spec_match_length [OF Some [unfolded xr]] r]
        have ih: "sub_italic (flatten rest)
          = flatten (spec_emphasis False [Chr star] (ascii ''<i>'') (ascii ''</i>'') rest)" .
        from match_italic_flatten [OF less.prems] f Some xr
        have "match_italic (c # flatten qs) = Some (flatten x, flatten rest)"
          by simp
        with Some xr f Cons ih show ?thesis
          by (simp add: flatten_simps)
      qed
    qed
  qed
qed

lemma replace_char_flatten:
  assumes "old = newline \<or> old = bullet"
  shows "list_all inert ps \<Longrightarrow>
     replace_char old new (flatten ps) = flatten (spec_replace old new ps)"
proof (induction ps)
  case Nil
  show ?case by (simp add: flatten_simps spec_replace_def replace_char_def)
next
  case (Cons p ps)
  then have ih: "replace_char old new (flatten ps) = flatten (spec_replace old new ps)"
    by simp
  show ?case
  proof (cases p)
    case (Chr c)
    with ih show ?thesis
      by (simp add: flatten_simps spec_replace_def replace_char_def)
  next
    case (Ins s)
    with Cons.prems assms have "old \<notin> set s" by auto
    then have "replace_char old new s = s"
      by (rule replace_char_absent)
    with ih Ins show ?thesis
      by (simp add: flatten_simps spec_replace_def replace_char_append)
  qed
qed

lemma spec_replace_inert:
  "inert (Ins new) \<Longrightarrow> list_all inert ps \<Longrightarrow> list_all inert (spec_replace old new ps)"
  by (induction ps) (simp_all add: spec_replace_def)

text \<open>
  C4, as stated with the specification's rule 1 (\<open>X\<close> may hold any character), fails: the
  code does not match a span over a newline. On \<open>**a\<close>, newline, \<open>b**\<close> the four rules with
  multi-line spans give one bold span; the code gives two empty italic spans.
\<close>

theorem convert_not_multiline_rules:
  "convert_markdown_to_html (ascii ''**a'' @ [newline] @ ascii ''b**'')
     = ascii ''<i></i>a<br/>b<i></i>''
   \<and> spec_convert True (ascii ''**a'' @ [newline] @ ascii ''b**'') = ascii ''<b>a<br/>b</b>''
   \<and> convert_markdown_to_html (ascii ''**a'' @ [newline] @ ascii ''b**'')
       \<noteq> spec_convert True (ascii ''**a'' @ [newline] @ ascii ''b**'')"
proof -
  have c: "convert_markdown_to_html (ascii ''**a'' @ [newline] @ ascii ''b**'')
       = ascii ''<i></i>a<br/>b<i></i>''"
    by (simp add: convert_markdown_to_html_def match_bold_def match_italic_def replace_char_def
      ascii_def star_def newline_def bullet_def)
  have s: "spec_convert True (ascii ''**a'' @ [newline] @ ascii ''b**'') = ascii ''<b>a<br/>b</b>''"
    by (simp add: spec_convert_def spec_match_def spec_replace_def flatten_def
      ascii_def star_def newline_def bullet_def)
  have "ascii ''<i></i>a<br/>b<i></i>'' \<noteq> ascii ''<b>a<br/>b</b>''"
    by (simp add: ascii_def)
  with c s show ?thesis by simp
qed

text \<open>
  C4, amended. On every input the converter applies the four rules in their order, bold
  spans, italic spans, newlines, bullet glyphs, where a span is the leftmost, shortest
  \<open>**X**\<close> or \<open>*X*\<close> whose \<open>X\<close> holds no newline; a later rule never matches a
  character of a tag that an earlier rule inserted.
\<close>

theorem convert_is_the_four_rules:
  "convert_markdown_to_html text = spec_convert False text"
proof -
  let ?p0 = "map Chr text"
  let ?p1 = "spec_emphasis False [Chr star, Chr star] (ascii ''<b>'') (ascii ''</b>'') ?p0"
  let ?p2 = "spec_emphasis False [Chr star] (ascii ''<i>'') (ascii ''</i>'') ?p1"
  let ?p3 = "spec_replace newline (ascii ''<br/>'') ?p2"
  have i0: "list_all inert ?p0"
    by (simp add: list_all_iff)
  have i1: "list_all inert ?p1"
    using inert_tags(1) inert_tags(2) i0 by (rule spec_emphasis_inert)
  have i2: "list_all inert ?p2"
    using inert_tags(3) inert_tags(4) i1 by (rule spec_emphasis_inert)
  have i3: "list_all inert ?p3"
    using inert_tags(5) i2 by (rule spec_replace_inert)
  have 1: "sub_bold text = flatten ?p1"
    using sub_bold_flatten [OF i0] by (simp add: flatten_map_Chr)
  have 2: "sub_italic (flatten ?p1) = flatten ?p2"
    by (rule sub_italic_flatten [OF i1])
  have 3: "replace_char newline (ascii ''<br/>'') (flatten ?p2) = flatten ?p3"
    by (rule replace_char_flatten [OF _ i2]) simp
  have 4: "replace_char bullet (ascii ''&bull;'') (flatten ?p3)
      = flatten (spec_replace bullet (ascii ''&bull;'') ?p3)"
    by (rule replace_char_flatten [OF _ i3]) simp
  show ?thesis
    unfolding convert_markdown_to_html_def spec_convert_def Let_def 1 2 3 4 ..
qed

theorem convert_is_the_four_rules_example:
  "spec_convert False (ascii ''*a**b**c*'') = ascii ''<i>a<b>b</b>c</i>''"
proof -
  have "convert_markdown_to_html (ascii ''*a**b**c*'') = ascii ''<i>a<b>b</b>c</i>''"
    by (simp add: convert_markdown_to_html_def match_bold_def match_italic_def
        replace_char_def ascii_def star_def newline_def bullet_def)
  with convert_is_the_four_rules [of "ascii ''*a**b**c*''"] show ?thesis
    by simp
qed

section \<open>Properties of the renderer\<close>

subsection \<open>A successful call\<close>

lemma footer_text_parts:
  "footer_text now summary_text =
     ascii ''<b>Generated on:</b> '' @ strftime ''%B %d, %Y - %I:%M %p'' now
     @ ascii ''  |  <b>Word Count:</b> '' @ str_nat (length (str_split summary_text))
     @ footer_tail"
  by (simp add: footer_text_def footer_tail_def ascii_def)

lemma save_summary_as_pdf_Inr:
  assumes "save_summary_as_pdf e summary_text w = (Inr fn, w')"
  shows "reportlab_installed e
    \<and> fn = ascii ''AI_Summary_'' @ strftime ''%Y%m%d_%H%M%S'' (clock e (clock_reads w))
          @ ascii ''.pdf''
    \<and> w' = w\<lparr>clock_reads := clock_reads w + 2,
             files := (files w)(fn \<mapsto>
               \<lparr>template = \<lparr>filename = fn, pagesize = reportlab_A4 e, leftMargin = 60,
                              rightMargin = 60, topMargin = 80, bottomMargin = 60\<rparr>,
                story = [header_table,
                         Spacer 1 (35 / 100 * inch),
                         Paragraph title_text title_style,
                         Paragraph subtitle_text subtitle_style,
                         card_table (convert_markdown_to_html summary_text),
                         Spacer 1 (4 / 10 * inch),
                         Paragraph (footer_text (clock e (clock_reads w + 1)) summary_text)
                           footer_style]\<rparr>)\<rparr>"
proof -
  from assms have a: "A4 e = Some (reportlab_A4 e)" and i: "reportlab_installed e"
    by (auto simp: save_summary_as_pdf_def A4_def split: if_splits)
  from assms i show ?thesis
    unfolding save_summary_as_pdf_def Let_def datetime_now_def a
    by (auto split: if_splits)
qed

subsection \<open>The examples\<close>

lemma example_run:
  "save_summary_as_pdf example_env hello_text example_world
   = (Inr (ascii ''AI_Summary_20240105_100059.pdf''),
      \<lparr>clock_reads = 2,
       files = [ascii ''AI_Summary_20240105_100059.pdf'' \<mapsto>
               \<lparr>template = \<lparr>filename = ascii ''AI_Summary_20240105_100059.pdf'',
                   pagesize = (595, 842), leftMargin = 60, rightMargin = 60,
                              topMargin = 80, bottomMargin = 60\<rparr>,
                story = [header_table,
                         Spacer 1 (35 / 100 * inch),
                         Paragraph title_text title_style,
                         Paragraph subtitle_text subtitle_style,
                         card_table (ascii ''Hello   world<br/>foo''),
                         Spacer 1 (4 / 10 * inch),
                         Paragraph
                           (ascii ''<b>Generated on:</b> January 05, 2024 - 10:01 AM''
                            @ ascii ''  |  <b>Word Count:</b> 3'' @ footer_tail)
                           footer_style]\<rparr>]\<rparr>)"
  by (simp add: save_summary_as_pdf_def A4_def example_env_def example_world_def
      datetime_now_def Let_def directive_def zfill_def str_nat.simps month_names_def
      footer_text_parts str_split_def isspace_def hello_text_def
      convert_markdown_to_html_def match_bold_def match_italic_def replace_char_def
      ascii_def star_def newline_def bullet_def)

lemma hello_split:
  "str_split hello_text = [ascii ''Hello'', ascii ''world'', ascii ''foo'']"
  by (simp add: str_split_def isspace_def ascii_def newline_def hello_text_def)





subsection \<open>The library is not installed\<close>

text \<open>
  C6. When the library could not be imported, so that the module-level \<open>A4\<close> is
  \<open>None\<close>, a call fails with \<open>RenderingUnavailable\<close> for every text and leaves the world
  as it was: no file is created and the clock is not read.
\<close>

theorem render_unavailable:
  assumes "\<not> reportlab_installed e"
  shows "save_summary_as_pdf e summary_text w = (Inl RenderingUnavailable, w)"
  using assms by (simp add: save_summary_as_pdf_def A4_def RenderingUnavailable_def)

theorem render_unavailable_witness:
  "\<not> reportlab_installed (example_env\<lparr>reportlab_installed := False\<rparr>)
   \<and> save_summary_as_pdf (example_env\<lparr>reportlab_installed := False\<rparr>) key_point_text
         example_world
       = (Inl RenderingUnavailable, example_world)
   \<and> files example_world = Map.empty"
proof -
  have h: "\<not> reportlab_installed (example_env\<lparr>reportlab_installed := False\<rparr>)"
    by simp
  from render_unavailable [OF h] h show ?thesis
    by (simp add: example_world_def)
qed

subsection \<open>The word count\<close>

lemma split_from_count:
  "length (split_from word cs) = (if word = [] then 0 else 1) + starts_from (word = []) cs"
  by (induction cs arbitrary: word) simp_all

lemma starts_from_index:
  "starts_from p s =
     length (filter (\<lambda>i. \<not> isspace (s ! i) \<and> (if i = 0 then p else isspace (s ! (i - 1))))
               [0..<length s])"
proof (induction s arbitrary: p)
  case Nil
  show ?case by simp
next
  case (Cons c cs)
  have u: "[0..<length (c # cs)] = 0 # map Suc [0..<length cs]"
    by (simp add: upt_conv_Cons map_Suc_upt del: upt_Suc)
  have "length (filter (\<lambda>i. \<not> isspace ((c # cs) ! i)
            \<and> (if i = 0 then p else isspace ((c # cs) ! (i - 1)))) (map Suc [0..<length cs]))
      = length (filter (\<lambda>i. \<not> isspace (cs ! i)
            \<and> (if i = 0 then isspace c else isspace (cs ! (i - 1)))) [0..<length cs])"
    unfolding filter_map length_map
    by (rule arg_cong [where f = length], rule filter_cong) (auto simp: nth_Cons')
  with Cons [of "isspace c"] show ?case
    unfolding u by simp
qed

lemma str_split_count: "length (str_split s) = length (token_starts s)"
proof -
  have "(\<lambda>i. \<not> isspace (s ! i) \<and> (if i = 0 then True else isspace (s ! (i - 1))))
      = (\<lambda>i. \<not> isspace (s ! i) \<and> (i = 0 \<or> isspace (s ! (i - 1))))"
    by auto
  then show ?thesis
    by (simp add: str_split_def split_from_count starts_from_index token_starts_def)
qed

text \<open>
  C3. In the document of a successful call the footer, the last block, states as word
  count the number of words that \<open>split\<close> yields on the summary text as passed in, before
  conversion; that is the number of its whitespace-delimited tokens.
\<close>

theorem footer_word_count:
  assumes "save_summary_as_pdf e summary_text w = (Inr fn, w')"
  shows "\<exists>file. files w' fn = Some file
     \<and> last (story file) =
         Paragraph
           (ascii ''<b>Generated on:</b> ''
            @ strftime ''%B %d, %Y - %I:%M %p'' (clock e (clock_reads w + 1))
            @ ascii ''  |  <b>Word Count:</b> '' @ str_nat (length (str_split summary_text))
            @ footer_tail)
           footer_style
     \<and> length (str_split summary_text) = length (token_starts summary_text)"
  using save_summary_as_pdf_Inr [OF assms]
  by (auto simp: footer_text_parts str_split_count)

theorem footer_word_count_witness:
  "\<exists>w'. save_summary_as_pdf example_env hello_text example_world
          = (Inr (ascii ''AI_Summary_20240105_100059.pdf''), w')
     \<and> (\<exists>file. files w' (ascii ''AI_Summary_20240105_100059.pdf'') = Some file
          \<and> last (story file) =
              Paragraph
                (ascii ''<b>Generated on:</b> January 05, 2024 - 10:01 AM''
                 @ ascii ''  |  <b>Word Count:</b> 3'' @ footer_tail)
                footer_style)
     \<and> length (token_starts hello_text) = 3"
proof -
  from example_run obtain w' where r: "save_summary_as_pdf example_env hello_text example_world
      = (Inr (ascii ''AI_Summary_20240105_100059.pdf''), w')"
    by blast
  have s: "strftime ''%B %d, %Y - %I:%M %p'' (clock example_env (clock_reads example_world + 1))
      = ascii ''January 05, 2024 - 10:01 AM''"
    by (simp add: example_env_def example_world_def directive_def zfill_def str_nat.simps
        month_names_def ascii_def)
  have l: "length (str_split hello_text) = 3"
    by (simp add: hello_split)
  have n: "str_nat 3 = ascii ''3''"
    by (simp add: str_nat.simps ascii_def)
  from footer_word_count [OF r] obtain out
    where f: "files w' (ascii ''AI_Summary_20240105_100059.pdf'') = Some out"
      and p: "last (story out) =
         Paragraph
           (ascii ''<b>Generated on:</b> ''
            @ strftime ''%B %d, %Y - %I:%M %p'' (clock example_env (clock_reads example_world + 1))
            @ ascii ''  |  <b>Word Count:</b> '' @ str_nat (length (str_split hello_text))
            @ footer_tail)
           footer_style"
      and c: "length (str_split hello_text) = length (token_starts hello_text)"
    by blast
  from p have "last (story out) =
      Paragraph
        (ascii ''<b>Generated on:</b> January 05, 2024 - 10:01 AM''
         @ ascii ''  |  <b>Word Count:</b> 3'' @ footer_tail)
        footer_style"
    unfolding s l n by (simp add: ascii_def)
  moreover from c l have "length (token_starts hello_text) = 3"
    by simp
  ultimately show ?thesis
    using r f by blast
qed

subsection \<open>The scenario of the specification\<close>





subsection \<open>The clock\<close>

text \<open>
  C1, as stated (the clock is read once, and the footer agrees with the filename), fails:
  a call reads the clock twice. With a first reading of 10:00:59 and a second of
  10:01:00 the filename says 10:00:59 and the footer 10:01.
\<close>

theorem render_stamps_differ:
  "fst (save_summary_as_pdf example_env hello_text example_world)
     = Inr (ascii ''AI_Summary_20240105_100059.pdf'')
   \<and> clock_reads (snd (save_summary_as_pdf example_env hello_text example_world))
     = clock_reads example_world + 2
   \<and> map_option (\<lambda>file. last (story file))
        (files (snd (save_summary_as_pdf example_env hello_text example_world))
           (ascii ''AI_Summary_20240105_100059.pdf''))
     = Some (Paragraph
               (ascii ''<b>Generated on:</b> January 05, 2024 - 10:01 AM''
                @ ascii ''  |  <b>Word Count:</b> 3'' @ footer_tail)
               footer_style)"
  unfolding example_run
  by (simp add: example_world_def)

text \<open>
  C1, amended. A successful call reads the clock twice: the first reading gives the
  timestamp of the filename, to the second, the second reading the timestamp of the
  footer, to the minute. The filename and the document are determined by the summary
  text, the page size and these two readings, and the readings occur nowhere but in the
  filename and in the timestamp field of the footer.
\<close>

theorem render_reads_clock_twice:
  assumes "save_summary_as_pdf e summary_text w = (Inr fn, w')"
  shows "clock_reads w' = clock_reads w + 2
    \<and> fn = ascii ''AI_Summary_'' @ strftime ''%Y%m%d_%H%M%S'' (clock e (clock_reads w))
          @ ascii ''.pdf''
    \<and> files w' = (files w)(fn \<mapsto>
               \<lparr>template = \<lparr>filename = fn, pagesize = reportlab_A4 e, leftMargin = 60,
                              rightMargin = 60, topMargin = 80, bottomMargin = 60\<rparr>,
                story = [header_table,
                         Spacer 1 (35 / 100 * inch),
                         Paragraph title_text title_style,
                         Paragraph subtitle_text subtitle_style,
                         card_table (convert_markdown_to_html summary_text),
                         Spacer 1 (4 / 10 * inch),
                         Paragraph
                           (ascii ''<b>Generated on:</b> ''
                            @ strftime ''%B %d, %Y - %I:%M %p'' (clock e (clock_reads w + 1))
                            @ ascii ''  |  <b>Word Count:</b> ''
                            @ str_nat (length (str_split summary_text)) @ footer_tail)
                           footer_style]\<rparr>)"
  using save_summary_as_pdf_Inr [OF assms]
  by (auto simp: footer_text_parts)

theorem render_reads_clock_twice_witness:
  "save_summary_as_pdf example_env hello_text example_world
     = (Inr (ascii ''AI_Summary_20240105_100059.pdf''),
        snd (save_summary_as_pdf example_env hello_text example_world))
   \<and> clock_reads (snd (save_summary_as_pdf example_env hello_text example_world))
     = clock_reads example_world + 2
   \<and> ascii ''AI_Summary_20240105_100059.pdf''
     = ascii ''AI_Summary_''
       @ strftime ''%Y%m%d_%H%M%S'' (clock example_env (clock_reads example_world))
       @ ascii ''.pdf''"
proof -
  have r: "save_summary_as_pdf example_env hello_text example_world
     = (Inr (ascii ''AI_Summary_20240105_100059.pdf''),
        snd (save_summary_as_pdf example_env hello_text example_world))"
    unfolding example_run by simp
  from render_reads_clock_twice [OF r] r show ?thesis
    by blast
qed

end
